theory Spec2Isabelle
  imports Main "HOL-Library.Word"
begin

unbundle bit_operations_syntax

section \<open>The page allocator with swap support (kernel/kalloc.c)\<close>

text \<open>
  A shallow embedding of kernel/kalloc.c: the free list threaded through the free pages,
  the circular doubly linked LRU list over the \<open>pages[]\<close> table, the swap bitmap, the
  clock scan of \<open>swapout\<close>, and \<open>swapin\<close>.

  The model is sequential: \<open>acquire\<close> and \<open>release\<close> are left out.
  A pointer \<open>struct page *\<close> is a \<open>nat option\<close>: \<open>None\<close> is the null pointer,
  \<open>Some i\<close> is \<open>&pages[i]\<close>. Physical addresses, page-table handles and translation
  entries are 64-bit words; C \<open>int\<close> values that stay far from the 32-bit limits
  (\<open>num_lru_pages\<close>, \<open>rounds\<close>, slot numbers) are \<open>int\<close>, and every conversion
  between widths that the source performs is written out.
\<close>

subsection \<open>Constants\<close>

text \<open>
  The headers param.h, memlayout.h and fs.h are not among the sources, so the values
  they give are parameters: \<open>SWAP_PAGES\<close> stands for \<open>SWAPMAX / (PGSIZE / BSIZE)\<close>,
  \<open>kend\<close> for the linker symbol \<open>end\<close>, \<open>PHYSTOP\<close> for the top of physical memory.
\<close>

record config =
  SWAP_PAGES :: int
  kend :: "64 word"
  PHYSTOP :: "64 word"

definition PGSIZE :: "64 word" where
  "PGSIZE = 4096"

text \<open>
  Modelled from the spec: riscv.h is missing, with the flag bits and the macros on
  translation entries. The entry has its flags in the low 10 bits and the frame-number
  field from bit 10 up; Valid is bit 0 and Accessed is bit 6, as on every RISC-V Sv39
  machine.
\<close>

definition PTE_V :: "64 word" where
  "PTE_V = 1"

definition PTE_A :: "64 word" where
  "PTE_A = 64"

definition PTE_FLAGS :: "64 word \<Rightarrow> 64 word" where
  "PTE_FLAGS pte = pte AND 0x3FF"

definition PTE2PA :: "64 word \<Rightarrow> 64 word" where
  "PTE2PA pte = push_bit 12 (drop_bit 10 pte)"

definition PA2PTE :: "64 word \<Rightarrow> 64 word" where
  "PA2PTE pa = push_bit 10 (drop_bit 12 pa)"

subsection \<open>State\<close>

text \<open>
  \<open>struct page\<close> (declared in a missing header) has the four fields the code uses.
  The two link fields are called \<open>next\<close> and \<open>prev\<close> in the source.
\<close>

record page =
  pagetable :: "64 word"
  vaddr :: "64 word"
  next_pg :: "nat option"
  prev_pg :: "nat option"

text \<open>
  The kernel state the allocator reads and writes. Frame bytes, translation entries and
  the bitmap bytes are three stores: \<open>mem\<close> maps a physical address to its byte,
  \<open>pte_mem\<close> maps the address of a translation entry to the entry, and
  \<open>swap_bitmap\<close> maps a byte index of the bitmap page to that byte. In the kernel the
  entries and the bitmap lie in pages of their own, which are not frames that
  \<open>kfree\<close>, \<open>kalloc\<close> or the swap primitives touch while they are in use; the model
  keeps them apart. \<open>console\<close> collects what \<open>printf\<close> prints. The unused global
  \<open>num_free_pages\<close> and the two locks are left out.
\<close>

text \<open>
  Modelled from the spec: \<open>walk\<close> is not among the sources. Its contract is
  \<open>lookup(table, vaddr, create) -> TranslationEntry* | NONE\<close>; the allocator calls it
  with \<open>create = 0\<close> only, so it reads the page tables and changes nothing.
  \<open>walk_tbl s pt va\<close> is the result of \<open>walk(pt, va, 0)\<close> in state \<open>s\<close>: the address of
  the entry, or 0. \<open>swap_disk s b\<close> is the 4096-byte image that slot \<open>b\<close> of the swap
  area holds.
\<close>

record kstate =
  freelist :: "64 word"
  mem :: "64 word \<Rightarrow> 8 word"
  pages :: "nat \<Rightarrow> page"
  page_lru_head :: "nat option"
  num_lru_pages :: int
  swap_bitmap :: "nat \<Rightarrow> 8 word"
  walk_tbl :: "64 word \<Rightarrow> 64 word \<Rightarrow> 64 word"
  pte_mem :: "64 word \<Rightarrow> 64 word"
  swap_disk :: "int \<Rightarrow> nat \<Rightarrow> 8 word"
  console :: "string list"

text \<open>
  A call either returns or halts the kernel: \<open>panic\<close> never returns, and a store or
  load through a null \<open>struct page *\<close> traps.
\<close>

datatype halt = Panic string | NullDeref

subsection \<open>Memory primitives\<close>

definition memset_pg :: "(64 word \<Rightarrow> 8 word) \<Rightarrow> 64 word \<Rightarrow> 8 word \<Rightarrow> (64 word \<Rightarrow> 8 word)" where
  "memset_pg m pa c = (\<lambda>a. if a - pa < PGSIZE then c else m a)"

text \<open>A pointer-sized store and load, little-endian as on RISC-V.\<close>

definition store64 :: "(64 word \<Rightarrow> 8 word) \<Rightarrow> 64 word \<Rightarrow> 64 word \<Rightarrow> (64 word \<Rightarrow> 8 word)" where
  "store64 m a v = (\<lambda>x. if x - a < 8 then ucast (drop_bit (8 * unat (x - a)) v) else m x)"

definition load64 :: "(64 word \<Rightarrow> 8 word) \<Rightarrow> 64 word \<Rightarrow> 64 word" where
  "load64 m a =
     ucast (m a) OR push_bit 8 (ucast (m (a + 1))) OR push_bit 16 (ucast (m (a + 2)))
     OR push_bit 24 (ucast (m (a + 3))) OR push_bit 32 (ucast (m (a + 4)))
     OR push_bit 40 (ucast (m (a + 5))) OR push_bit 48 (ucast (m (a + 6)))
     OR push_bit 56 (ucast (m (a + 7)))"

text \<open>The image of the page at \<open>pa\<close>, byte by byte.\<close>

definition page_image :: "(64 word \<Rightarrow> 8 word) \<Rightarrow> 64 word \<Rightarrow> (nat \<Rightarrow> 8 word)" where
  "page_image m pa = (\<lambda>i. if i < 4096 then m (pa + of_nat i) else 0)"

text \<open>
  Modelled from the spec: \<open>swapwrite\<close> and \<open>swapread\<close> are not among the sources. Their
  contract is \<open>write_slot(frame_address, slot_index)\<close> and
  \<open>read_slot(frame_address, slot_index)\<close>, synchronous and never corrupting data: the
  one stores the image of the page in the slot, the other copies the image of the slot
  into the page.
\<close>

definition swapwrite :: "64 word \<Rightarrow> int \<Rightarrow> kstate \<Rightarrow> kstate" where
  "swapwrite pa blkno s = s\<lparr>swap_disk := (swap_disk s)(blkno := page_image (mem s) pa)\<rparr>"

definition swapread :: "64 word \<Rightarrow> int \<Rightarrow> kstate \<Rightarrow> kstate" where
  "swapread pa blkno s =
     s\<lparr>mem := (\<lambda>a. if a - pa < PGSIZE then swap_disk s blkno (unat (a - pa)) else mem s a)\<rparr>"

subsection \<open>kfree and pa2page\<close>

definition kfree :: "config \<Rightarrow> 64 word \<Rightarrow> kstate \<Rightarrow> halt + kstate" where
  "kfree cfg pa s =
     (if pa mod PGSIZE \<noteq> 0 \<or> pa < kend cfg \<or> pa \<ge> PHYSTOP cfg
      then Inl (Panic ''kfree'')
      else Inr (s\<lparr>mem := store64 (memset_pg (mem s) pa 1) pa (freelist s),
                 freelist := pa\<rparr>))"

definition pa2page :: "config \<Rightarrow> 64 word \<Rightarrow> nat option" where
  "pa2page cfg pa =
     (if pa < kend cfg \<or> pa \<ge> PHYSTOP cfg then None
      else Some (unat ((pa - kend cfg) div PGSIZE)))"

subsection \<open>The LRU list\<close>

definition set_next :: "nat \<Rightarrow> nat option \<Rightarrow> kstate \<Rightarrow> kstate" where
  "set_next i v s = s\<lparr>pages := (pages s)(i := (pages s i)\<lparr>next_pg := v\<rparr>)\<rparr>"

definition set_prev :: "nat \<Rightarrow> nat option \<Rightarrow> kstate \<Rightarrow> kstate" where
  "set_prev i v s = s\<lparr>pages := (pages s)(i := (pages s i)\<lparr>prev_pg := v\<rparr>)\<rparr>"

text \<open>
  \<open>link_tail pg s\<close> is the four stores that put \<open>pg\<close> before the head, shared by
  \<open>lru_add\<close> (lines 118 to 121) and \<open>lru_move_to_tail_locked\<close> (lines 164 to 167):
  \<open>pg->next = head; pg->prev = head->prev; head->prev->next = pg; head->prev = pg\<close>.
\<close>

definition link_tail :: "nat \<Rightarrow> kstate \<Rightarrow> halt + kstate" where
  "link_tail pg s =
     (case page_lru_head s of
        None \<Rightarrow> Inl NullDeref
      | Some h \<Rightarrow>
          let s1 = set_next pg (Some h) s;
              s2 = set_prev pg (prev_pg (pages s1 h)) s1
          in (case prev_pg (pages s2 h) of
                None \<Rightarrow> Inl NullDeref
              | Some t \<Rightarrow> Inr (set_prev h (Some pg) (set_next t (Some pg) s2))))"

definition lru_add :: "nat \<Rightarrow> kstate \<Rightarrow> halt + kstate" where
  "lru_add pg s =
     (case (if page_lru_head s = None
            then Inr (set_prev pg (Some pg) (set_next pg (Some pg) (s\<lparr>page_lru_head := Some pg\<rparr>)))
            else link_tail pg s) of
        Inl e \<Rightarrow> Inl e
      | Inr s' \<Rightarrow> Inr (s'\<lparr>num_lru_pages := num_lru_pages s' + 1\<rparr>))"

text \<open>
  \<open>unlink pg s\<close> is the two stores that take \<open>pg\<close> out of its position, shared by
  \<open>lru_remove\<close> (lines 138, 139) and \<open>lru_move_to_tail_locked\<close> (lines 158, 159):
  \<open>pg->prev->next = pg->next; pg->next->prev = pg->prev\<close>.
\<close>

definition unlink :: "nat \<Rightarrow> kstate \<Rightarrow> halt + kstate" where
  "unlink pg s =
     (case prev_pg (pages s pg) of
        None \<Rightarrow> Inl NullDeref
      | Some p \<Rightarrow>
          let s1 = set_next p (next_pg (pages s pg)) s
          in (case next_pg (pages s1 pg) of
                None \<Rightarrow> Inl NullDeref
              | Some n \<Rightarrow> Inr (set_prev n (prev_pg (pages s1 pg)) s1)))"

definition lru_remove :: "nat \<Rightarrow> kstate \<Rightarrow> halt + kstate" where
  "lru_remove pg s =
     (case (if next_pg (pages s pg) = Some pg
            then Inr (s\<lparr>page_lru_head := None\<rparr>)
            else (case unlink pg s of
                    Inl e \<Rightarrow> Inl e
                  | Inr s1 \<Rightarrow>
                      Inr (if page_lru_head s1 = Some pg
                           then s1\<lparr>page_lru_head := next_pg (pages s1 pg)\<rparr>
                           else s1))) of
        Inl e \<Rightarrow> Inl e
      | Inr s2 \<Rightarrow>
          let s3 = set_prev pg None (set_next pg None s2)
          in Inr (s3\<lparr>num_lru_pages := num_lru_pages s3 - 1\<rparr>))"

definition lru_move_to_tail_locked :: "nat \<Rightarrow> kstate \<Rightarrow> halt + kstate" where
  "lru_move_to_tail_locked pg s =
     (if page_lru_head s = None \<or> next_pg (pages s pg) = None then Inr s
      else (case unlink pg s of
              Inl e \<Rightarrow> Inl e
            | Inr s1 \<Rightarrow>
                link_tail pg (if page_lru_head s1 = Some pg
                              then s1\<lparr>page_lru_head := next_pg (pages s1 pg)\<rparr>
                              else s1)))"

subsection \<open>The swap bitmap\<close>

definition slot_mask :: "int \<Rightarrow> 8 word" where
  "slot_mask i = push_bit (nat (i mod 8)) 1"

text \<open>The \<open>for\<close> loop of \<open>swap_alloc\<close>, from index \<open>i\<close> on.\<close>

function swap_alloc_from :: "config \<Rightarrow> int \<Rightarrow> kstate \<Rightarrow> int \<times> kstate" where
  "swap_alloc_from cfg i s =
     (if i < SWAP_PAGES cfg
      then (let j = nat (i div 8)
            in if swap_bitmap s j AND slot_mask i = 0
               then (i, s\<lparr>swap_bitmap := (swap_bitmap s)(j := swap_bitmap s j OR slot_mask i)\<rparr>)
               else swap_alloc_from cfg (i + 1) s)
      else (-1, s))"
  by pat_completeness auto
termination
  by (relation "measure (\<lambda>(cfg, i, s). nat (SWAP_PAGES cfg - i))") auto

declare swap_alloc_from.simps [simp del]

definition swap_alloc :: "config \<Rightarrow> kstate \<Rightarrow> int \<times> kstate" where
  "swap_alloc cfg s = swap_alloc_from cfg 0 s"

definition swap_free :: "config \<Rightarrow> int \<Rightarrow> kstate \<Rightarrow> kstate" where
  "swap_free cfg blkno s =
     (if blkno < 0 \<or> blkno \<ge> SWAP_PAGES cfg then s
      else (let j = nat (blkno div 8)
            in s\<lparr>swap_bitmap := (swap_bitmap s)(j := swap_bitmap s j AND NOT (slot_mask blkno))\<rparr>))"

subsection \<open>swapout\<close>

text \<open>
  The \<open>do ... while\<close> loop of \<open>swapout\<close> (lines 222 to 253), entered with the locals
  \<open>curr\<close> and \<open>rounds\<close>. It returns the locals \<open>victim\<close>, \<open>curr\<close> and \<open>rounds\<close>
  as they are when the loop is left, and the state. A \<open>continue\<close> in a
  \<open>do ... while\<close> jumps to the test of the loop condition.
\<close>

function swapout_loop ::
  "kstate \<Rightarrow> nat option \<Rightarrow> int \<Rightarrow> halt + (nat option \<times> nat option \<times> int \<times> kstate)" where
  "swapout_loop s cur rounds =
     (case cur of
        None \<Rightarrow> Inl NullDeref
      | Some c \<Rightarrow>
          if pagetable (pages s c) = 0 \<or> vaddr (pages s c) = 0
          then (if rounds + 1 > num_lru_pages s
                then Inr (None, next_pg (pages s c), rounds + 1, s)
                else if next_pg (pages s c) \<noteq> page_lru_head s \<and> rounds + 1 \<le> num_lru_pages s
                then swapout_loop s (next_pg (pages s c)) (rounds + 1)
                else Inr (None, next_pg (pages s c), rounds + 1, s))
          else if walk_tbl s (pagetable (pages s c)) (vaddr (pages s c)) = 0
                  \<or> pte_mem s (walk_tbl s (pagetable (pages s c)) (vaddr (pages s c))) AND PTE_V = 0
          then (if rounds + 1 > num_lru_pages s
                then Inr (None, next_pg (pages s c), rounds + 1, s)
                else if next_pg (pages s c) \<noteq> page_lru_head s \<and> rounds + 1 \<le> num_lru_pages s
                then swapout_loop s (next_pg (pages s c)) (rounds + 1)
                else Inr (None, next_pg (pages s c), rounds + 1, s))
          else if pte_mem s (walk_tbl s (pagetable (pages s c)) (vaddr (pages s c))) AND PTE_A = 0
          then Inr (Some c, cur, rounds, s)
          else (case lru_move_to_tail_locked c
                       (s\<lparr>pte_mem := (pte_mem s)
                            (walk_tbl s (pagetable (pages s c)) (vaddr (pages s c)) :=
                               pte_mem s (walk_tbl s (pagetable (pages s c)) (vaddr (pages s c)))
                                 AND NOT PTE_A)\<rparr>) of
                  Inl e \<Rightarrow> Inl e
                | Inr s' \<Rightarrow>
                    if next_pg (pages s' c) \<noteq> page_lru_head s' \<and> rounds + 1 \<le> num_lru_pages s'
                    then swapout_loop s' (next_pg (pages s' c)) (rounds + 1)
                    else Inr (None, next_pg (pages s' c), rounds + 1, s')))"
  by pat_completeness auto
termination
proof (relation "measure (\<lambda>(s, cur, rounds). nat (num_lru_pages s + 1 - rounds))", goal_cases)
  case 1
  show ?case by simp
next
  case 2
  then show ?case by simp
next
  case 3
  then show ?case by simp
next
  case (4 s cur rounds c s')
  have un: "num_lru_pages t' = num_lru_pages t" if "unlink pg t = Inr t'" for pg t t'
    using that
    by (auto simp: unlink_def set_next_def set_prev_def Let_def split: option.splits)
  have lt: "num_lru_pages t' = num_lru_pages t" if "link_tail pg t = Inr t'" for pg t t'
    using that
    by (auto simp: link_tail_def set_next_def set_prev_def Let_def split: option.splits)
  have mv: "num_lru_pages t' = num_lru_pages t" if "lru_move_to_tail_locked pg t = Inr t'"
    for pg t t'
    using that
    by (auto simp: lru_move_to_tail_locked_def split: if_splits sum.splits dest!: un lt)
  from 4 have "num_lru_pages s' = num_lru_pages s"
    using mv [of c _ s'] by simp
  with 4 show ?case by simp
qed

declare swapout_loop.simps [simp del]

text \<open>
  The rest of \<open>swapout\<close> once the loop has chosen \<open>victim\<close> (lines 260 to 287).
  \<open>(swap_blkno << 10)\<close> is a shift of a 32-bit \<open>int\<close>, which the \<open>|\<close> with
  an \<open>uint64\<close> then sign-extends.
\<close>

definition swapout_victim :: "config \<Rightarrow> nat \<Rightarrow> kstate \<Rightarrow> halt + (int \<times> kstate)" where
  "swapout_victim cfg victim s =
     (case swap_alloc cfg s of
        (swap_blkno, s1) \<Rightarrow>
          if swap_blkno < 0 then Inr (-1, s1)
          else (let pte = walk_tbl s1 (pagetable (pages s1 victim)) (vaddr (pages s1 victim))
                in if pte = 0 \<or> pte_mem s1 pte AND PTE_V = 0
                   then Inr (-1, swap_free cfg swap_blkno s1)
                   else (let pa = PTE2PA (pte_mem s1 pte);
                             flags = PTE_FLAGS (pte_mem s1 pte);
                             s2 = swapwrite pa swap_blkno s1;
                             s3 = s2\<lparr>pte_mem := (pte_mem s2)
                                    (pte := scast (push_bit 10 (word_of_int swap_blkno :: 32 word))
                                            OR (flags AND NOT PTE_V))\<rparr>
                         in (case lru_remove victim s3 of
                               Inl e \<Rightarrow> Inl e
                             | Inr s4 \<Rightarrow>
                                 (case kfree cfg pa s4 of
                                    Inl e \<Rightarrow> Inl e
                                  | Inr s5 \<Rightarrow> Inr (0, s5))))))"

definition swapout :: "config \<Rightarrow> kstate \<Rightarrow> halt + (int \<times> kstate)" where
  "swapout cfg s =
     (if page_lru_head s = None then Inr (-1, s)
      else (case swapout_loop s (page_lru_head s) 0 of
              Inl e \<Rightarrow> Inl e
            | Inr (victim, cur, rounds, s1) \<Rightarrow>
                (case victim of
                   None \<Rightarrow> Inr (-1, s1)
                 | Some v \<Rightarrow> swapout_victim cfg v s1)))"

subsection \<open>kalloc and swapin\<close>

text \<open>The pop of lines 344 to 348, repeated at lines 357 to 361.\<close>

definition pop_free :: "kstate \<Rightarrow> 64 word \<times> kstate" where
  "pop_free s =
     (let r = freelist s
      in (r, if r \<noteq> 0 then s\<lparr>freelist := load64 (mem s) r\<rparr> else s))"

text \<open>
  \<open>kalloc\<close> with the call of \<open>swapout()\<close> as the parameter \<open>ev\<close>, so that what
  \<open>kalloc\<close> does with the eviction engine can be stated.
\<close>

definition kalloc_with ::
  "(kstate \<Rightarrow> halt + (int \<times> kstate)) \<Rightarrow> kstate \<Rightarrow> halt + (64 word \<times> kstate)" where
  "kalloc_with ev s =
     (case pop_free s of
        (r, s1) \<Rightarrow>
          (case (if r = 0
                 then (case ev s1 of
                         Inl e \<Rightarrow> Inl e
                       | Inr (rc, s2) \<Rightarrow>
                           if rc < 0
                           then Inr (True, 0, s2\<lparr>console := console s2 @ [''kalloc: out of memory\<newline>'']\<rparr>)
                           else Inr (False, pop_free s2))
                 else Inr (False, r, s1)) of
             Inl e \<Rightarrow> Inl e
           | Inr (returned, r', s3) \<Rightarrow>
               if returned then Inr (0, s3)
               else if r' \<noteq> 0 then Inr (r', s3\<lparr>mem := memset_pg (mem s3) r' 5\<rparr>)
               else Inr (r', s3)))"

definition kalloc :: "config \<Rightarrow> kstate \<Rightarrow> halt + (64 word \<times> kstate)" where
  "kalloc cfg s = kalloc_with (swapout cfg) s"

text \<open>
  \<open>swapin\<close>: \<open>(int)swap_offset\<close> keeps the low 32 bits of the shifted entry, read as a
  signed number; \<open>uint flags\<close> keeps the low 32 bits of the flags.
\<close>

definition swapin :: "config \<Rightarrow> 64 word \<Rightarrow> 64 word \<Rightarrow> 64 word \<Rightarrow> kstate \<Rightarrow> halt + (int \<times> kstate)" where
  "swapin cfg pt va pte s =
     (let swap_offset = drop_bit 10 (pte_mem s pte);
          swap_blkno = sint (ucast swap_offset :: 32 word)
      in if swap_blkno < 0 \<or> swap_blkno \<ge> SWAP_PAGES cfg then Inr (-1, s)
         else (case kalloc cfg s of
                 Inl e \<Rightarrow> Inl e
               | Inr (pa, s1) \<Rightarrow>
                   if pa = 0 then Inr (-1, s1)
                   else (let s2 = swapread pa swap_blkno s1;
                             flags = (ucast (PTE_FLAGS (pte_mem s2 pte) OR PTE_V OR PTE_A) :: 32 word);
                             s3 = s2\<lparr>pte_mem := (pte_mem s2)(pte := PA2PTE pa OR ucast flags)\<rparr>
                         in (case (case pa2page cfg pa of
                                     None \<Rightarrow> Inr s3
                                   | Some pg \<Rightarrow>
                                       lru_add pg
                                         (s3\<lparr>pages := (pages s3)
                                            (pg := (pages s3 pg)\<lparr>pagetable := pt, vaddr := va\<rparr>)\<rparr>)) of
                               Inl e \<Rightarrow> Inl e
                             | Inr s4 \<Rightarrow> Inr (0, swap_free cfg swap_blkno s4)))))"

subsection \<open>Concrete states\<close>

text \<open>
  The state after the assignments of \<open>kinit\<close> and the zero-initialised globals: nothing
  free, nothing enrolled, every \<open>struct page\<close> cleared. The configuration is the one the
  comment in \<open>kinit\<close> speaks of (875 bitmap bytes), on the memory map of the qemu board.
\<close>

definition boot_state :: kstate where
  "boot_state =
     \<lparr>freelist = 0, mem = (\<lambda>_. 0),
      pages = (\<lambda>_. \<lparr>pagetable = 0, vaddr = 0, next_pg = None, prev_pg = None\<rparr>),
      page_lru_head = None, num_lru_pages = 0, swap_bitmap = (\<lambda>_. 0),
      walk_tbl = (\<lambda>_ _. 0), pte_mem = (\<lambda>_. 0), swap_disk = (\<lambda>_ _. 0), console = []\<rparr>"

definition cfg0 :: config where
  "cfg0 = \<lparr>SWAP_PAGES = 7000, kend = 0x80021000, PHYSTOP = 0x88000000\<rparr>"

text \<open>
  One free page, and a translation entry at \<open>0x87FFF000\<close> that is not Valid and whose
  frame-number field is \<open>2 ^ 32\<close>.
\<close>

definition corrupt_entry_state :: kstate where
  "corrupt_entry_state =
     boot_state\<lparr>freelist := 0x80030000, pte_mem := (\<lambda>_. 0)(0x87FFF000 := 0x40000000016)\<rparr>"

text \<open>
  Three enrolled frames, 15 (the head), 16 and 17, each mapped by a Valid entry whose
  Accessed flag is set; no free page.
\<close>

definition all_accessed_state :: kstate where
  "all_accessed_state =
     boot_state\<lparr>
       pages := (\<lambda>_. \<lparr>pagetable = 0, vaddr = 0, next_pg = None, prev_pg = None\<rparr>)
         (15 := \<lparr>pagetable = 0x87FFE000, vaddr = 0x4000, next_pg = Some 16, prev_pg = Some 17\<rparr>,
          16 := \<lparr>pagetable = 0x87FFE000, vaddr = 0x5000, next_pg = Some 17, prev_pg = Some 15\<rparr>,
          17 := \<lparr>pagetable = 0x87FFE000, vaddr = 0x6000, next_pg = Some 15, prev_pg = Some 16\<rparr>),
       page_lru_head := Some 15,
       num_lru_pages := 3,
       walk_tbl := (\<lambda>pt va. if pt = 0x87FFE000 \<and> va = 0x4000 then 0x87FFF020
                            else if pt = 0x87FFE000 \<and> va = 0x5000 then 0x87FFF028
                            else if pt = 0x87FFE000 \<and> va = 0x6000 then 0x87FFF030 else 0),
       pte_mem := (\<lambda>_. 0)(0x87FFF020 := 0x2000C057, 0x87FFF028 := 0x2000C457,
                           0x87FFF030 := 0x2000C857)\<rparr>"

subsection \<open>Well-formed LRU lists\<close>

text \<open>
  \<open>chain f xs\<close>: each element of \<open>xs\<close> is sent by \<open>f\<close> to the element after it.
  \<open>cyc f xs\<close>: moreover the last is sent to the first. \<open>ringl nx pv xs\<close>: the
  distinct frames \<open>xs\<close> form a circular doubly linked list, \<open>nx\<close> running forward and
  \<open>pv\<close> backward.
\<close>

fun chain :: "('a \<Rightarrow> 'a option) \<Rightarrow> 'a list \<Rightarrow> bool" where
  "chain f (a # b # r) = (f a = Some b \<and> chain f (b # r))"
| "chain f [a] = True"
| "chain f [] = True"

definition cyc :: "('a \<Rightarrow> 'a option) \<Rightarrow> 'a list \<Rightarrow> bool" where
  "cyc f xs = (xs = [] \<or> chain f (xs @ [hd xs]))"

definition ringl :: "('a \<Rightarrow> 'a option) \<Rightarrow> ('a \<Rightarrow> 'a option) \<Rightarrow> 'a list \<Rightarrow> bool" where
  "ringl nx pv xs = (distinct xs \<and> cyc nx xs \<and> cyc pv (rev xs))"

text \<open>
  \<open>lru_ring s xs\<close>: in state \<open>s\<close> the LRU list is the ring \<open>xs\<close>, starting at
  \<open>page_lru_head\<close>, \<open>num_lru_pages\<close> counts it, and every other frame has both links
  null (as in the zero-initialised \<open>pages[]\<close> and after \<open>lru_remove\<close>).
\<close>

definition nexts :: "kstate \<Rightarrow> nat \<Rightarrow> nat option" where
  "nexts s i = next_pg (pages s i)"

definition prevs :: "kstate \<Rightarrow> nat \<Rightarrow> nat option" where
  "prevs s i = prev_pg (pages s i)"

definition lru_ring :: "kstate \<Rightarrow> nat list \<Rightarrow> bool" where
  "lru_ring s xs =
     (ringl (nexts s) (prevs s) xs
      \<and> page_lru_head s = (case xs of [] \<Rightarrow> None | h # _ \<Rightarrow> Some h)
      \<and> num_lru_pages s = int (length xs)
      \<and> (\<forall>i. i \<notin> set xs \<longrightarrow> nexts s i = None \<and> prevs s i = None))"

text \<open>What the list operations leave alone: everything but the links, the head and the count.\<close>

definition same_frames :: "kstate \<Rightarrow> kstate \<Rightarrow> bool" where
  "same_frames s s' =
     (freelist s' = freelist s \<and> mem s' = mem s \<and> swap_bitmap s' = swap_bitmap s
      \<and> walk_tbl s' = walk_tbl s \<and> pte_mem s' = pte_mem s \<and> swap_disk s' = swap_disk s
      \<and> console s' = console s
      \<and> (\<forall>i. pagetable (pages s' i) = pagetable (pages s i) \<and> vaddr (pages s' i) = vaddr (pages s i)))"

text \<open>A frame is linked when its \<open>next\<close> field is not null, the test of line 154.\<close>

definition linked :: "kstate \<Rightarrow> nat \<Rightarrow> bool" where
  "linked s pg = (next_pg (pages s pg) \<noteq> None)"

text \<open>Sequences of list operations, each called as its precondition allows.\<close>

datatype lru_op = Add nat | Remove nat | MoveToTail nat

fun lru_step :: "lru_op \<Rightarrow> kstate \<Rightarrow> halt + kstate" where
  "lru_step (Add pg) s = lru_add pg s"
| "lru_step (Remove pg) s = lru_remove pg s"
| "lru_step (MoveToTail pg) s = lru_move_to_tail_locked pg s"

fun lru_run :: "lru_op list \<Rightarrow> kstate \<Rightarrow> halt + kstate" where
  "lru_run [] s = Inr s"
| "lru_run (x # xs) s = (case lru_step x s of Inl e \<Rightarrow> Inl e | Inr s' \<Rightarrow> lru_run xs s')"

fun lru_pre :: "lru_op \<Rightarrow> kstate \<Rightarrow> bool" where
  "lru_pre (Add pg) s = (\<not> linked s pg)"
| "lru_pre (Remove pg) s = linked s pg"
| "lru_pre (MoveToTail pg) s = True"

fun lru_legal :: "lru_op list \<Rightarrow> kstate \<Rightarrow> bool" where
  "lru_legal [] s = True"
| "lru_legal (x # xs) s =
     (lru_pre x s \<and> (case lru_step x s of Inl e \<Rightarrow> True | Inr s' \<Rightarrow> lru_legal xs s'))"

subsection \<open>What the scan establishes\<close>

text \<open>
  \<open>victim_ok s w\<close>: frame \<open>w\<close> passes the three tests of the loop body, so it is chosen.
  \<open>scan_post s xs r res\<close>: what holds of the result \<open>res\<close> of the loop entered with
  \<open>rounds = r\<close> on the well-formed list \<open>xs\<close>. Each run of the loop body looks at one
  candidate and either adds one to \<open>rounds\<close> or chooses the victim and breaks, so the
  candidates looked at so far number \<open>rounds\<close>, plus one when a victim was chosen.
\<close>

definition victim_ok :: "kstate \<Rightarrow> nat \<Rightarrow> bool" where
  "victim_ok s w =
     (pagetable (pages s w) \<noteq> 0 \<and> vaddr (pages s w) \<noteq> 0
      \<and> walk_tbl s (pagetable (pages s w)) (vaddr (pages s w)) \<noteq> 0
      \<and> pte_mem s (walk_tbl s (pagetable (pages s w)) (vaddr (pages s w))) AND PTE_V \<noteq> 0
      \<and> pte_mem s (walk_tbl s (pagetable (pages s w)) (vaddr (pages s w))) AND PTE_A = 0)"

definition scan_post ::
  "kstate \<Rightarrow> nat list \<Rightarrow> int \<Rightarrow> nat option \<times> nat option \<times> int \<times> kstate \<Rightarrow> bool" where
  "scan_post s xs r res =
     (case res of (v, c', r', s') \<Rightarrow>
        (r \<le> num_lru_pages s \<longrightarrow> r' + (if v = None then 0 else 1) \<le> num_lru_pages s + 1)
        \<and> r \<le> r'
        \<and> (\<forall>w. v = Some w \<longrightarrow> s' = s \<and> w \<in> set xs \<and> victim_ok s w)
        \<and> (\<exists>ys. lru_ring s' ys \<and> set ys = set xs))"

text \<open>
  A small swap area, and the list of three frames with the head not Accessed and every
  slot of that area taken.
\<close>

definition cfg_small :: config where
  "cfg_small = \<lparr>SWAP_PAGES = 8, kend = 0x80021000, PHYSTOP = 0x88000000\<rparr>"

definition full_swap_state :: kstate where
  "full_swap_state =
     all_accessed_state\<lparr>
       swap_bitmap := (\<lambda>_. 0xFF),
       pte_mem := (\<lambda>_. 0)(0x87FFF020 := 0x2000C017, 0x87FFF028 := 0x2000C457,
                           0x87FFF030 := 0x2000C857)\<rparr>"

subsection \<open>The two encodings of a translation entry\<close>

text \<open>
  \<open>swapped_pte b old\<close> is the entry line 279 writes for slot \<open>b\<close> over the entry
  \<open>old\<close>, with the shift taken in 64 bits (lemma \<open>slot_shift\<close>: the same value as the
  shift of the 32-bit \<open>int\<close>, for slot numbers below \<open>2 ^ 21\<close>).
  \<open>restored_pte pa e\<close> is the entry line 319 writes for the page \<open>pa\<close> over the entry
  \<open>e\<close>.
\<close>

definition swapped_pte :: "int \<Rightarrow> 64 word \<Rightarrow> 64 word" where
  "swapped_pte b old = push_bit 10 (word_of_int b) OR (PTE_FLAGS old AND NOT PTE_V)"

definition restored_pte :: "64 word \<Rightarrow> 64 word \<Rightarrow> 64 word" where
  "restored_pte pa e = PA2PTE pa OR ucast (ucast (PTE_FLAGS e OR PTE_V OR PTE_A) :: 32 word)"

text \<open>
  The list of three frames with the head not Accessed, and the swap slots 0, 1 and 2
  taken.
\<close>

definition evict_state :: kstate where
  "evict_state =
     all_accessed_state\<lparr>
       swap_bitmap := (\<lambda>_. 0)(0 := 7),
       pte_mem := (\<lambda>_. 0)(0x87FFF020 := 0x2000C017, 0x87FFF028 := 0x2000C457,
                           0x87FFF030 := 0x2000C857)\<rparr>"

section \<open>Properties\<close>

subsection \<open>Link stores\<close>

text \<open>The link stores leave every other part of the state alone.\<close>

lemma set_next_fields [simp]:
  "freelist (set_next i v s) = freelist s"
  "mem (set_next i v s) = mem s"
  "page_lru_head (set_next i v s) = page_lru_head s"
  "num_lru_pages (set_next i v s) = num_lru_pages s"
  "swap_bitmap (set_next i v s) = swap_bitmap s"
  "walk_tbl (set_next i v s) = walk_tbl s"
  "pte_mem (set_next i v s) = pte_mem s"
  "swap_disk (set_next i v s) = swap_disk s"
  "console (set_next i v s) = console s"
  by (simp_all add: set_next_def)

lemma set_prev_fields [simp]:
  "freelist (set_prev i v s) = freelist s"
  "mem (set_prev i v s) = mem s"
  "page_lru_head (set_prev i v s) = page_lru_head s"
  "num_lru_pages (set_prev i v s) = num_lru_pages s"
  "swap_bitmap (set_prev i v s) = swap_bitmap s"
  "walk_tbl (set_prev i v s) = walk_tbl s"
  "pte_mem (set_prev i v s) = pte_mem s"
  "swap_disk (set_prev i v s) = swap_disk s"
  "console (set_prev i v s) = console s"
  by (simp_all add: set_prev_def)

lemma unlink_num: "unlink pg s = Inr s' \<Longrightarrow> num_lru_pages s' = num_lru_pages s"
  by (auto simp: unlink_def Let_def split: option.splits)

lemma link_tail_num: "link_tail pg s = Inr s' \<Longrightarrow> num_lru_pages s' = num_lru_pages s"
  by (auto simp: link_tail_def Let_def split: option.splits)

lemma lru_move_to_tail_locked_num:
  "lru_move_to_tail_locked pg s = Inr s' \<Longrightarrow> num_lru_pages s' = num_lru_pages s"
  by (auto simp: lru_move_to_tail_locked_def split: if_splits sum.splits
      dest!: unlink_num link_tail_num)

subsection \<open>Memory\<close>

lemma of_nat_lt8: "k < 8 \<Longrightarrow> (of_nat k :: 64 word) < 8"
  by (simp add: word_less_nat_alt unat_of_nat)

lemma store64_at: "k < 8 \<Longrightarrow> store64 m a v (a + of_nat k) = ucast (drop_bit (8 * k) v)"
  by (simp add: store64_def of_nat_lt8 unat_of_nat)

lemma load64_store64: "load64 (store64 m a v) a = v"
proof -
  have b: "store64 m a v (a + n) = ucast (drop_bit (8 * k) v)" if "n = of_nat k" "k < 8" for n k
    using store64_at [of k m a v] that by simp
  have b0: "store64 m a v a = ucast v"
    using store64_at [of 0 m a v] by simp
  show ?thesis
    unfolding load64_def
    apply (simp add: b0 b [of 1 1] b [of 2 2] b [of 3 3] b [of 4 4] b [of 5 5] b [of 6 6] b [of 7 7])
    apply (rule bit_word_eqI)
    apply (simp add: bit_simps)
    subgoal for n
    proof -
      assume n: "n < 64"
      have e: "bit v (k + (n - k)) = bit v n" if "k \<le> n" for k using that by simp
      consider "n < 8" | "8 \<le> n" "n < 16" | "16 \<le> n" "n < 24" | "24 \<le> n" "n < 32"
        | "32 \<le> n" "n < 40" | "40 \<le> n" "n < 48" | "48 \<le> n" "n < 56" | "56 \<le> n" "n < 64"
        using n by linarith
      then show ?thesis
        by cases (simp_all add: e less_diff_conv2)
    qed
    done
qed

lemma memset_pg_in: "i < 4096 \<Longrightarrow> memset_pg m pa c (pa + of_nat i) = c"
  by (simp add: memset_pg_def PGSIZE_def word_less_nat_alt unat_of_nat)

lemma store64_out: "8 \<le> i \<Longrightarrow> i < 4096 \<Longrightarrow> store64 m a v (a + of_nat i) = m (a + of_nat i)"
  by (simp add: store64_def word_less_nat_alt unat_of_nat)

subsection \<open>kfree\<close>

text \<open>
  C9. \<open>kfree\<close> halts, with \<open>panic("kfree")\<close>, exactly when the address is not a
  multiple of the page size, lies below \<open>end\<close>, or is at or above \<open>PHYSTOP\<close>. For
  every other address it returns: it fills the page with the byte 1 and then pushes the
  page on the free list, so that the list head is the page, its link field (the first
  eight bytes) holds the former head, and every later byte of the page is 1.
\<close>

theorem kfree_contract:
  "(kfree cfg pa s = Inl (Panic ''kfree'')) = (pa mod PGSIZE \<noteq> 0 \<or> pa < kend cfg \<or> PHYSTOP cfg \<le> pa)
   \<and> (\<forall>e. kfree cfg pa s = Inl e \<longrightarrow> e = Panic ''kfree'')
   \<and> (pa mod PGSIZE = 0 \<and> kend cfg \<le> pa \<and> pa < PHYSTOP cfg \<longrightarrow>
        (\<exists>s'. kfree cfg pa s = Inr s'
           \<and> s' = s\<lparr>mem := store64 (memset_pg (mem s) pa 1) pa (freelist s), freelist := pa\<rparr>
           \<and> (\<forall>i<4096. memset_pg (mem s) pa 1 (pa + of_nat i) = 1)
           \<and> freelist s' = pa
           \<and> load64 (mem s') pa = freelist s
           \<and> (\<forall>i. 8 \<le> i \<and> i < 4096 \<longrightarrow> mem s' (pa + of_nat i) = 1)))"
  by (auto simp: kfree_def load64_store64 memset_pg_in store64_out)

theorem kfree_contract_witness:
  "kfree cfg0 0x80030001 boot_state = Inl (Panic ''kfree'')
   \<and> (\<exists>s'. kfree cfg0 0x80030000 boot_state = Inr s' \<and> freelist s' = 0x80030000
      \<and> load64 (mem s') 0x80030000 = 0 \<and> mem s' 0x80030064 = 1)"
proof -
  have h: "(0x80030000 :: 64 word) mod PGSIZE = 0 \<and> kend cfg0 \<le> 0x80030000
      \<and> 0x80030000 < PHYSTOP cfg0"
    by (simp add: cfg0_def PGSIZE_def)
  with kfree_contract [of cfg0 "0x80030000" boot_state] obtain s'
    where k: "kfree cfg0 0x80030000 boot_state = Inr s'" "freelist s' = 0x80030000"
      "load64 (mem s') 0x80030000 = freelist boot_state"
      "\<forall>i. 8 \<le> i \<and> i < 4096 \<longrightarrow> mem s' (0x80030000 + of_nat i) = 1"
    by blast
  have "mem s' 0x80030064 = 1"
    using k(4) [rule_format, of 100] by simp
  have p: "kfree cfg0 0x80030001 boot_state = Inl (Panic ''kfree'')"
    using kfree_contract [of cfg0 "0x80030001" boot_state, THEN conjunct1]
    by (simp add: PGSIZE_def cfg0_def)
  have z: "freelist boot_state = 0" by (simp add: boot_state_def)
  show ?thesis
    apply (rule conjI [OF p])
    apply (rule exI [of _ s'])
    apply (simp only: k z \<open>mem s' 0x80030064 = 1\<close>)
    done
qed

subsection \<open>kalloc\<close>

text \<open>
  C6. \<open>kalloc\<close> pops the head of a non-empty free list and returns it (junk-filled
  with 5), whatever the eviction engine would do. On an empty free list it calls
  \<open>swapout\<close> once, on the state it was entered with: when \<open>swapout\<close> fails it prints
  and returns 0; otherwise it pops once more and returns what it finds, 0 if the list is
  still empty. So it returns 0 exactly when the list was empty and \<open>swapout\<close> failed or
  the second pop found nothing. The result depends on the eviction engine only through
  its result on the entry state: there is no second call.
\<close>

theorem kalloc_contract:
  "(freelist s \<noteq> 0 \<longrightarrow>
      kalloc cfg s = Inr (freelist s, s\<lparr>freelist := load64 (mem s) (freelist s),
                                      mem := memset_pg (mem s) (freelist s) 5\<rparr>))
   \<and> (freelist s = 0 \<longrightarrow>
      kalloc cfg s =
        (case swapout cfg s of
           Inl e \<Rightarrow> Inl e
         | Inr (rc, s1) \<Rightarrow>
             if rc < 0 then Inr (0, s1\<lparr>console := console s1 @ [''kalloc: out of memory\<newline>'']\<rparr>)
             else if freelist s1 = 0 then Inr (0, s1)
             else Inr (freelist s1, s1\<lparr>freelist := load64 (mem s1) (freelist s1),
                                       mem := memset_pg (mem s1) (freelist s1) 5\<rparr>)))
   \<and> ((\<exists>s'. kalloc cfg s = Inr (0, s')) =
        (freelist s = 0 \<and> (\<exists>rc s1. swapout cfg s = Inr (rc, s1) \<and> (rc < 0 \<or> freelist s1 = 0))))
   \<and> (\<forall>ev ev'. ev s = ev' s \<longrightarrow> kalloc_with ev s = kalloc_with ev' s)
   \<and> (freelist s \<noteq> 0 \<longrightarrow> (\<forall>ev. kalloc_with ev s = kalloc cfg s))"
proof -
  have a: "freelist s \<noteq> 0 \<Longrightarrow> kalloc_with ev s = Inr (freelist s, s\<lparr>freelist := load64 (mem s) (freelist s),
                                      mem := memset_pg (mem s) (freelist s) 5\<rparr>)" for ev
    by (simp add: kalloc_with_def pop_free_def Let_def)
  have b: "freelist s = 0 \<Longrightarrow> kalloc_with ev s =
        (case ev s of
           Inl e \<Rightarrow> Inl e
         | Inr (rc, s1) \<Rightarrow>
             if rc < 0 then Inr (0, s1\<lparr>console := console s1 @ [''kalloc: out of memory\<newline>'']\<rparr>)
             else if freelist s1 = 0 then Inr (0, s1)
             else Inr (freelist s1, s1\<lparr>freelist := load64 (mem s1) (freelist s1),
                                       mem := memset_pg (mem s1) (freelist s1) 5\<rparr>))" for ev
    by (simp add: kalloc_with_def pop_free_def Let_def split: sum.splits prod.splits)
  have c: "(\<exists>s'. kalloc cfg s = Inr (0, s')) =
        (freelist s = 0 \<and> (\<exists>rc s1. swapout cfg s = Inr (rc, s1) \<and> (rc < 0 \<or> freelist s1 = 0)))"
  proof (cases "freelist s = 0")
    case True
    show ?thesis
    proof (cases "swapout cfg s")
      case (Inl e)
      then show ?thesis using True by (simp add: kalloc_def b)
    next
      case (Inr p)
      obtain rc s1 where p: "p = (rc, s1)" by (cases p)
      show ?thesis using True Inr p by (simp add: kalloc_def b)
    qed
  next
    case False
    then show ?thesis by (simp add: kalloc_def a)
  qed
  have d: "kalloc_with ev s = kalloc_with ev' s" if e: "ev s = ev' s" for ev ev'
  proof (cases "freelist s = 0")
    case True
    show ?thesis unfolding b [OF True] e by (rule refl)
  next
    case False
    show ?thesis unfolding a [OF False] by (rule refl)
  qed
  have a': "freelist s \<noteq> 0 \<longrightarrow> (\<forall>ev. kalloc_with ev s = kalloc cfg s)"
    unfolding kalloc_def using a by simp
  show ?thesis
    apply (intro conjI)
        apply (simp add: kalloc_def a)
       apply (rule impI, simp only: kalloc_def, erule b)
      apply (rule c)
     apply (intro allI impI, erule d)
    apply (rule a')
    done
qed


theorem kalloc_contract_witness:
  "(\<exists>s'. kalloc cfg0 boot_state = Inr (0, s'))
   \<and> (\<exists>s'. kalloc cfg0 corrupt_entry_state = Inr (0x80030000, s'))"
proof -
  have e: "freelist boot_state = 0 \<and> (\<exists>rc s1. swapout cfg0 boot_state = Inr (rc, s1)
      \<and> (rc < 0 \<or> freelist s1 = 0))"
    by (simp add: boot_state_def swapout_def)
  have f: "freelist corrupt_entry_state \<noteq> 0"
    by (simp add: corrupt_entry_state_def boot_state_def)
  have g: "freelist corrupt_entry_state = 0x80030000"
    by (simp add: corrupt_entry_state_def boot_state_def)
  have "\<exists>s'. kalloc cfg0 boot_state = Inr (0, s')"
    using kalloc_contract [of boot_state cfg0, THEN conjunct2, THEN conjunct2, THEN conjunct1] e
    by (rule iffD2)
  moreover have "\<exists>s'. kalloc cfg0 corrupt_entry_state = Inr (0x80030000, s')"
    using kalloc_contract [of corrupt_entry_state cfg0, THEN conjunct1, rule_format, OF f]
    by (simp add: g)
  ultimately show ?thesis by (rule conjI)
qed

subsection \<open>swapin on a corrupt entry\<close>

lemma load64_zero: "load64 (\<lambda>_. 0) a = 0"
  by (simp add: load64_def)

text \<open>
  C2. The claim is that \<open>swapin\<close> fails and leaves the entry alone whenever the entry is
  not Valid and the entry shifted right by 10 is outside \<open>[0, SWAP_PAGES)\<close>. The code
  checks the range after \<open>(int)swap_offset\<close> has dropped the bits above bit 31: an
  entry whose shifted value is \<open>2 ^ 32\<close> passes the check as slot 0, \<open>swapin\<close>
  returns 0 and the entry is rewritten as a Valid one.
\<close>

theorem swapin_accepts_wide_slot:
  "pte_mem corrupt_entry_state 0x87FFF000 AND PTE_V = 0
   \<and> uint (drop_bit 10 (pte_mem corrupt_entry_state 0x87FFF000)) = 4294967296
   \<and> \<not> (uint (drop_bit 10 (pte_mem corrupt_entry_state 0x87FFF000)) < SWAP_PAGES cfg0)
   \<and> (\<exists>s'. swapin cfg0 0x87FFE000 0x4000 0x87FFF000 corrupt_entry_state = Inr (0, s')
         \<and> pte_mem s' 0x87FFF000 = 0x2000C057
         \<and> page_lru_head s' = Some 15)"
  by (simp add: corrupt_entry_state_def boot_state_def cfg0_def PTE_V_def PTE_A_def swapin_def
      kalloc_def kalloc_with_def pop_free_def load64_zero swapread_def PTE_FLAGS_def PA2PTE_def
      pa2page_def PGSIZE_def lru_add_def set_next_def set_prev_def swap_free_def Let_def)


text \<open>What the range check does establish: the truncated number, out of range, is refused.\<close>

lemma swapin_rejects_truncated:
  "sint (ucast (drop_bit 10 (pte_mem s pte)) :: 32 word) < 0
     \<or> SWAP_PAGES cfg \<le> sint (ucast (drop_bit 10 (pte_mem s pte)) :: 32 word)
   \<Longrightarrow> swapin cfg pt va pte s = Inr (-1, s)"
  by (simp add: swapin_def Let_def)

subsection \<open>Rings\<close>

lemma chain_append:
  "chain f (xs @ ys) =
     (chain f xs \<and> chain f ys \<and> (xs \<noteq> [] \<and> ys \<noteq> [] \<longrightarrow> f (last xs) = Some (hd ys)))"
proof (induction f xs rule: chain.induct)
  case (1 f a b r)
  then show ?case by auto
next
  case (2 f a)
  then show ?case by (cases ys) auto
next
  case (3 f)
  then show ?case by simp
qed

lemma chain_upd: "a \<notin> set (butlast xs) \<Longrightarrow> chain (f(a := v)) xs = chain f xs"
  by (induction f xs rule: chain.induct) auto

lemma cyc_append:
  assumes "xs \<noteq> []" "ys \<noteq> []"
  shows "cyc f (xs @ ys) =
     (chain f xs \<and> chain f ys \<and> f (last xs) = Some (hd ys) \<and> f (last ys) = Some (hd xs))"
proof -
  have "cyc f (xs @ ys) = chain f (xs @ (ys @ [hd xs]))"
    using assms by (simp add: cyc_def)
  also have "\<dots> = (chain f xs \<and> chain f (ys @ [hd xs]) \<and> f (last xs) = Some (hd ys))"
    using assms by (subst chain_append) simp
  also have "chain f (ys @ [hd xs]) = (chain f ys \<and> f (last ys) = Some (hd xs))"
    using assms by (subst chain_append) simp
  finally show ?thesis by blast
qed

lemma cyc_rot: "cyc f (xs @ ys) = cyc f (ys @ xs)"
proof (cases "xs = [] \<or> ys = []")
  case True
  then show ?thesis by auto
next
  case False
  then show ?thesis
    by (simp add: cyc_append) blast
qed

lemma ringl_rot: "ringl nx pv (xs @ ys) = ringl nx pv (ys @ xs)"
  using cyc_rot [of nx xs ys] cyc_rot [of pv "rev ys" "rev xs"]
  by (auto simp: ringl_def)

lemma ringl_upd_out:
  "a \<notin> set xs \<Longrightarrow> ringl (nx(a := v)) (pv(a := w)) xs = ringl nx pv xs"
proof -
  assume a: "a \<notin> set xs"
  then have "a \<notin> set (butlast (xs @ [hd xs]))" "a \<notin> set (butlast (rev xs @ [hd (rev xs)]))"
    by auto
  then show ?thesis
    by (simp add: ringl_def cyc_def chain_upd)
qed

lemma ringl_unlink:
  assumes "ringl nx pv (pg # rest)" "rest \<noteq> []"
  shows "nx pg = Some (hd rest)" "pv pg = Some (last rest)"
    "ringl (nx(last rest := Some (hd rest))) (pv(hd rest := Some (last rest))) rest"
proof -
  from assms have d: "distinct rest" "pg \<notin> set rest"
    and n: "chain nx (pg # rest @ [pg])"
    and p: "chain pv (rev rest @ [pg, last rest])"
    by (auto simp: ringl_def cyc_def hd_rev)
  from assms(2) obtain h t where r: "rest = h # t" by (cases rest) auto
  from n r show "nx pg = Some (hd rest)" by simp
  from p assms(2) show "pv pg = Some (last rest)"
    by (auto simp: chain_append)
  have l: "last rest \<notin> set (butlast rest)" using d(1) assms(2)
    by (metis distinct_butlast not_distinct_conv_prefix snoc_eq_iff_butlast)
  have h: "hd rest \<notin> set (butlast (rev rest))" using d(1) assms(2)
    by (metis butlast_rev distinct.simps(2) list.collapse set_rev)
  have "chain nx (rest @ [pg])" using n r by simp
  then have "chain nx rest" by (simp add: chain_append)
  then have c1: "cyc (nx(last rest := Some (hd rest))) rest"
    using assms(2) l by (simp add: cyc_def chain_append chain_upd)
  have "chain pv (rev rest)" using p by (simp add: chain_append)
  then have c2: "cyc (pv(hd rest := Some (last rest))) (rev rest)"
    using assms(2) h by (simp add: cyc_def chain_append chain_upd last_rev hd_rev)
  show "ringl (nx(last rest := Some (hd rest))) (pv(hd rest := Some (last rest))) rest"
    using d c1 c2 by (simp add: ringl_def)
qed

lemma ringl_single: "ringl nx pv [a] = (nx a = Some a \<and> pv a = Some a)"
  by (simp add: ringl_def cyc_def)

lemma ringl_distinct: "ringl nx pv xs \<Longrightarrow> distinct xs"
  by (simp add: ringl_def)

lemma ringl_link:
  assumes "ringl nx pv ys" "ys \<noteq> []" "pg \<notin> set ys"
  shows "pv (hd ys) = Some (last ys)"
    "ringl (nx(pg := Some (hd ys), last ys := Some pg)) (pv(pg := Some (last ys), hd ys := Some pg))
       (ys @ [pg])"
proof -
  from assms have d: "distinct ys"
    and n: "chain nx (ys @ [hd ys])"
    and p: "chain pv (rev ys @ [last ys])"
    by (auto simp: ringl_def cyc_def hd_rev)
  from p assms(2) show "pv (hd ys) = Some (last ys)"
    by (simp add: chain_append last_rev)
  have l: "last ys \<notin> set (butlast ys)" using d assms(2)
    by (metis distinct_butlast not_distinct_conv_prefix snoc_eq_iff_butlast)
  have h: "hd ys \<notin> set (butlast (rev ys))" using d assms(2)
    by (metis butlast_rev distinct.simps(2) list.collapse set_rev)
  have pb: "pg \<notin> set (butlast ys)" "pg \<notin> set (butlast (rev ys))"
    using assms(3) by (cases ys; auto dest: in_set_butlastD)+
  have ne: "pg \<noteq> last ys" "pg \<noteq> hd ys" using assms(2,3) by auto
  have "chain nx ys" using n by (simp add: chain_append)
  then have "chain (nx(pg := Some (hd ys), last ys := Some pg)) ys"
    using l pb by (simp add: chain_upd)
  then have c1: "cyc (nx(pg := Some (hd ys), last ys := Some pg)) (ys @ [pg])"
    using assms(2) ne by (simp add: cyc_append)
  have "chain pv (rev ys)" using p by (simp add: chain_append)
  then have "chain (pv(pg := Some (last ys), hd ys := Some pg)) (rev ys)"
    using h pb by (simp add: chain_upd)
  then have "cyc (pv(pg := Some (last ys), hd ys := Some pg)) ([pg] @ rev ys)"
    using assms(2) ne by (subst cyc_append) (simp_all add: hd_rev last_rev)
  then have c2: "cyc (pv(pg := Some (last ys), hd ys := Some pg)) (rev (ys @ [pg]))"
    by simp
  show "ringl (nx(pg := Some (hd ys), last ys := Some pg)) (pv(pg := Some (last ys), hd ys := Some pg))
       (ys @ [pg])"
    using d assms(3) c1 c2 by (simp add: ringl_def)
qed

lemma ringl_front:
  assumes "ringl nx pv (a # rest)"
  shows "nx a = Some (hd (rest @ [a])) \<and> pv (hd (rest @ [a])) = Some a
    \<and> pv a = Some (last (a # rest)) \<and> nx (last (a # rest)) = Some a"
proof (cases "rest = []")
  case True
  with assms show ?thesis by (simp add: ringl_single)
next
  case False
  have "cyc nx ([a] @ rest)" "cyc pv (rev rest @ [a])"
    using assms by (simp_all add: ringl_def)
  with False have "nx (last [a]) = Some (hd rest) \<and> nx (last rest) = Some (hd [a])"
    "pv (last (rev rest)) = Some (hd [a]) \<and> pv (last [a]) = Some (hd (rev rest))"
    by (simp_all only: cyc_append rev_is_Nil_conv not_Cons_self2 simp_thms)
  with False show ?thesis
    by (simp add: hd_rev last_rev)
qed

lemma ringl_member:
  assumes "ringl nx pv xs" "a \<in> set xs"
  shows "\<exists>n\<in>set xs. \<exists>p\<in>set xs. nx a = Some n \<and> pv n = Some a \<and> pv a = Some p \<and> nx p = Some a"
proof -
  from assms(2) obtain as bs where x: "xs = as @ a # bs" by (auto simp: in_set_conv_decomp)
  then have "ringl nx pv ((a # bs) @ as)" using assms(1) ringl_rot [of nx pv as "a # bs"] by simp
  then have r: "ringl nx pv (a # (bs @ as))" by simp
  have "hd ((bs @ as) @ [a]) \<in> set xs" "last (a # (bs @ as)) \<in> set xs"
    unfolding x by (cases bs; cases as; auto)+
  with ringl_front [OF r] show ?thesis by blast
qed

subsection \<open>The list operations on a well-formed list\<close>

lemma links_set_next [simp]:
  "nexts (set_next a v s) = (nexts s)(a := v)"
  "prevs (set_next a v s) = prevs s"
  by (auto simp: nexts_def prevs_def set_next_def)

lemma links_set_prev [simp]:
  "nexts (set_prev a v s) = nexts s"
  "prevs (set_prev a v s) = (prevs s)(a := v)"
  by (auto simp: nexts_def prevs_def set_prev_def)

lemma links_other_fields [simp]:
  "nexts (s\<lparr>page_lru_head := h\<rparr>) = nexts s"
  "prevs (s\<lparr>page_lru_head := h\<rparr>) = prevs s"
  "nexts (s\<lparr>num_lru_pages := n\<rparr>) = nexts s"
  "prevs (s\<lparr>num_lru_pages := n\<rparr>) = prevs s"
  "nexts (s\<lparr>pte_mem := pm\<rparr>) = nexts s"
  "prevs (s\<lparr>pte_mem := pm\<rparr>) = prevs s"
  by (auto simp: nexts_def prevs_def)

lemma same_frames_refl [simp]: "same_frames s s"
  by (simp add: same_frames_def)

lemma same_frames_trans: "same_frames s s' \<Longrightarrow> same_frames s' s'' \<Longrightarrow> same_frames s s''"
  by (simp add: same_frames_def)

lemma same_frames_links [simp]:
  "same_frames s (set_next a v s')= same_frames s s'"
  "same_frames s (set_prev a v s') = same_frames s s'"
  "same_frames s (s'\<lparr>page_lru_head := h\<rparr>) = same_frames s s'"
  "same_frames s (s'\<lparr>num_lru_pages := n\<rparr>) = same_frames s s'"
  by (auto simp: same_frames_def set_next_def set_prev_def)

lemma set_next_same: "nexts s a = v \<Longrightarrow> set_next a v s = s"
  by (auto simp: set_next_def nexts_def)

lemma set_prev_same: "prevs s a = v \<Longrightarrow> set_prev a v s = s"
  by (auto simp: set_prev_def prevs_def)

lemma unlink_ring:
  assumes "ringl (nexts s) (prevs s) (pg # rest)" "rest \<noteq> []"
  shows "unlink pg s =
     Inr (set_prev (hd rest) (Some (last rest)) (set_next (last rest) (Some (hd rest)) s))"
proof -
  have n: "nexts s pg = Some (hd rest)" and p: "prevs s pg = Some (last rest)"
    using ringl_unlink(1,2) [OF assms] by simp_all
  have "pg \<notin> set rest" using assms(1) by (simp add: ringl_def)
  with assms(2) have ne: "last rest \<noteq> pg" by auto
  have n1: "nexts (set_next (last rest) (Some (hd rest)) s) pg = Some (hd rest)"
    using n ne by simp
  have p1: "prevs (set_next (last rest) (Some (hd rest)) s) pg = Some (last rest)"
    using p by simp
  show ?thesis
    using n p n1 p1 unfolding unlink_def nexts_def prevs_def by (simp add: Let_def)
qed

lemma unlink_single:
  assumes "ringl (nexts s) (prevs s) [pg]"
  shows "unlink pg s = Inr s"
proof -
  have n: "nexts s pg = Some pg" and p: "prevs s pg = Some pg"
    using assms by (simp_all add: ringl_single)
  have e: "set_next pg (Some pg) s = s" "set_prev pg (Some pg) s = s"
    using n p by (simp_all add: set_next_same set_prev_same)
  show ?thesis
    using n p e unfolding unlink_def nexts_def prevs_def by (simp add: Let_def)
qed

lemma link_tail_ring:
  assumes "ringl (nexts s) (prevs s) ys" "ys \<noteq> []" "pg \<notin> set ys" "page_lru_head s = Some (hd ys)"
  shows "link_tail pg s =
     Inr (set_prev (hd ys) (Some pg) (set_next (last ys) (Some pg)
            (set_prev pg (Some (last ys)) (set_next pg (Some (hd ys)) s))))"
proof -
  have p: "prevs s (hd ys) = Some (last ys)"
    using ringl_link(1) [OF assms(1-3)] .
  have ne: "hd ys \<noteq> pg" using assms(2,3) by auto
  have p1: "prev_pg (pages (set_next pg (Some (hd ys)) s) (hd ys)) = Some (last ys)"
    using p by (simp add: prevs_def [symmetric])
  have p2: "prev_pg (pages (set_prev pg (Some (last ys)) (set_next pg (Some (hd ys)) s)) (hd ys))
      = Some (last ys)"
    using p ne by (simp add: prevs_def [symmetric])
  show ?thesis
    unfolding link_tail_def by (simp add: Let_def assms(4) p1 p2)
qed

lemma lru_ring_split:
  assumes "lru_ring s xs" "pg \<in> set xs"
  obtains as bs where "xs = as @ pg # bs" "pg \<notin> set as" "pg \<notin> set bs"
    "ringl (nexts s) (prevs s) (pg # (bs @ as))" "distinct (as @ bs)"
proof -
  from assms(2) obtain as bs where x: "xs = as @ pg # bs"
    by (auto simp: in_set_conv_decomp)
  have r: "ringl (nexts s) (prevs s) (as @ pg # bs)"
    using assms(1) x by (simp add: lru_ring_def)
  then have d: "distinct (as @ pg # bs)" by (rule ringl_distinct)
  have "ringl (nexts s) (prevs s) ((pg # bs) @ as)"
    using r ringl_rot [of "nexts s" "prevs s" as "pg # bs"] by simp
  then have "ringl (nexts s) (prevs s) (pg # (bs @ as))" by simp
  with x d show ?thesis by (intro that [of as bs]) auto
qed

lemma lru_add_ring:
  assumes "lru_ring s xs" "pg \<notin> set xs"
  shows "\<exists>s'. lru_add pg s = Inr s' \<and> lru_ring s' (xs @ [pg]) \<and> same_frames s s'"
proof (cases "xs = []")
  case True
  with assms(1) have h: "page_lru_head s = None" and n: "num_lru_pages s = 0"
    and o: "\<forall>i. nexts s i = None \<and> prevs s i = None"
    by (simp_all add: lru_ring_def)
  let ?s = "(set_prev pg (Some pg) (set_next pg (Some pg) (s\<lparr>page_lru_head := Some pg\<rparr>)))
      \<lparr>num_lru_pages := num_lru_pages s + 1\<rparr>"
  have "lru_add pg s = Inr ?s" by (simp add: lru_add_def h)
  moreover have "lru_ring ?s [pg]"
    using n o by (simp add: lru_ring_def ringl_single)
  moreover have "same_frames s ?s" by simp
  ultimately show ?thesis using True by auto
next
  case False
  with assms(1) have h: "page_lru_head s = Some (hd xs)"
    and r: "ringl (nexts s) (prevs s) xs"
    and n: "num_lru_pages s = int (length xs)"
    and o: "\<forall>i. i \<notin> set xs \<longrightarrow> nexts s i = None \<and> prevs s i = None"
    by (simp_all add: lru_ring_def split: list.splits)
  let ?t = "set_prev (hd xs) (Some pg) (set_next (last xs) (Some pg)
            (set_prev pg (Some (last xs)) (set_next pg (Some (hd xs)) s)))"
  let ?s = "?t\<lparr>num_lru_pages := num_lru_pages ?t + 1\<rparr>"
  have "lru_add pg s = Inr ?s"
    using link_tail_ring [OF r False assms(2) h] h by (simp add: lru_add_def)
  moreover have "lru_ring ?s (xs @ [pg])"
    using ringl_link(2) [OF r False assms(2)] False h n o
    by (cases xs) (simp_all add: lru_ring_def)
  moreover have "same_frames s ?s" by simp
  ultimately show ?thesis by blast
qed

lemma lru_remove_ring:
  assumes "lru_ring s xs" "pg \<in> set xs"
  shows "\<exists>s'. lru_remove pg s = Inr s' \<and> lru_ring s' (remove1 pg xs) \<and> same_frames s s'"
proof -
  from assms obtain as bs where x: "xs = as @ pg # bs" and na: "pg \<notin> set as"
    and nb: "pg \<notin> set bs" and r: "ringl (nexts s) (prevs s) (pg # (bs @ as))"
    and d: "distinct (as @ bs)"
    by (rule lru_ring_split)
  have rm: "remove1 pg xs = as @ bs" using x na by (simp add: remove1_append)
  from assms(1) have n: "num_lru_pages s = int (length xs)"
    and o: "\<forall>i. i \<notin> set xs \<longrightarrow> nexts s i = None \<and> prevs s i = None"
    and h: "page_lru_head s = (case xs of [] \<Rightarrow> None | h # _ \<Rightarrow> Some h)"
    by (simp_all add: lru_ring_def)
  show ?thesis
  proof (cases "bs @ as = []")
    case True
    then have e: "as = []" "bs = []" by simp_all
    have np: "nexts s pg = Some pg" using r e by (simp add: ringl_single)
    let ?t = "set_prev pg None (set_next pg None (s\<lparr>page_lru_head := None\<rparr>))"
    let ?s = "?t\<lparr>num_lru_pages := num_lru_pages ?t - 1\<rparr>"
    have "lru_remove pg s = Inr ?s"
      using np by (simp add: lru_remove_def nexts_def Let_def)
    moreover have "lru_ring ?s (remove1 pg xs)"
      using n o x e by (simp add: lru_ring_def ringl_def cyc_def)
    moreover have "same_frames s ?s" by simp
    ultimately show ?thesis by blast
  next
    case False
    let ?rest = "bs @ as"
    have np: "nexts s pg = Some (hd ?rest)"
      using ringl_unlink(1) [OF r False] .
    have "hd ?rest \<in> set ?rest" using False by (intro hd_in_set)
    then have ne: "hd ?rest \<noteq> pg" using na nb by auto
    let ?u = "set_prev (hd ?rest) (Some (last ?rest)) (set_next (last ?rest) (Some (hd ?rest)) s)"
    have u: "unlink pg s = Inr ?u" using unlink_ring [OF r False] .
    have ru: "ringl (nexts ?u) (prevs ?u) ?rest"
      using ringl_unlink(3) [OF r False] by simp
    have "last ?rest \<in> set ?rest" using False by (intro last_in_set)
    then have nl: "last ?rest \<noteq> pg" using na nb by auto
    have nu: "nexts ?u pg = Some (hd ?rest)" using np nl by simp
    then have nu': "next_pg (pages ?u pg) = Some (hd ?rest)" by (simp only: nexts_def)
    let ?v = "if page_lru_head ?u = Some pg then ?u\<lparr>page_lru_head := next_pg (pages ?u pg)\<rparr> else ?u"
    have hv: "page_lru_head ?v = Some (hd (as @ bs))"
    proof (cases as)
      case Nil
      then show ?thesis using h x nu' by simp
    next
      case (Cons a as')
      then show ?thesis using h x na by auto
    qed
    have lv: "nexts ?v = nexts ?u" "prevs ?v = prevs ?u" by simp_all
    let ?t = "set_prev pg None (set_next pg None ?v)"
    let ?s = "?t\<lparr>num_lru_pages := num_lru_pages ?t - 1\<rparr>"
    have "lru_remove pg s = Inr ?s"
      using np ne u by (simp add: lru_remove_def nexts_def Let_def)
    moreover have "lru_ring ?s (remove1 pg xs)"
    proof -
      have "pg \<notin> set ?rest" using na nb by simp
      then have "ringl ((nexts ?u)(pg := None)) ((prevs ?u)(pg := None)) ?rest"
        using ru by (simp add: ringl_upd_out)
      then have "ringl ((nexts ?u)(pg := None)) ((prevs ?u)(pg := None)) (as @ bs)"
        using ringl_rot [of _ _ bs as] by simp
      then have 1: "ringl (nexts ?s) (prevs ?s) (as @ bs)" by (simp add: lv)
      have 2: "page_lru_head ?s = (case as @ bs of [] \<Rightarrow> None | h # _ \<Rightarrow> Some h)"
      proof (cases "as @ bs")
        case Nil
        then show ?thesis using False by simp
      next
        case (Cons c cs)
        then have "hd (as @ bs) = c" by simp
        with hv Cons show ?thesis by simp
      qed
      have 3: "num_lru_pages ?s = int (length (as @ bs))"
        using n x by (simp split: if_splits)
      have 4: "\<forall>i. i \<notin> set (as @ bs) \<longrightarrow> nexts ?s i = None \<and> prevs ?s i = None"
        using o x False hd_in_set [OF False] last_in_set [OF False] by (auto simp: lv)
      show ?thesis unfolding rm lru_ring_def using 1 2 3 4 by blast
    qed
    moreover have "same_frames s ?s" by (simp split: if_splits)
    ultimately show ?thesis by blast
  qed
qed

lemma lru_move_unlinked:
  "page_lru_head s = None \<or> next_pg (pages s pg) = None \<Longrightarrow> lru_move_to_tail_locked pg s = Inr s"
  by (auto simp: lru_move_to_tail_locked_def)

lemma lru_move_ring:
  assumes "lru_ring s xs" "pg \<in> set xs"
  shows "\<exists>s'. lru_move_to_tail_locked pg s = Inr s' \<and> lru_ring s' (remove1 pg xs @ [pg])
           \<and> same_frames s s' \<and> next_pg (pages s' pg) = page_lru_head s'"
proof -
  from assms obtain as bs where x: "xs = as @ pg # bs" and na: "pg \<notin> set as"
    and nb: "pg \<notin> set bs" and r: "ringl (nexts s) (prevs s) (pg # (bs @ as))"
    and d: "distinct (as @ bs)"
    by (rule lru_ring_split)
  have rm: "remove1 pg xs = as @ bs" using x na by (simp add: remove1_append)
  from assms(1) have n: "num_lru_pages s = int (length xs)"
    and o: "\<forall>i. i \<notin> set xs \<longrightarrow> nexts s i = None \<and> prevs s i = None"
    and h: "page_lru_head s = (case xs of [] \<Rightarrow> None | h # _ \<Rightarrow> Some h)"
    by (simp_all add: lru_ring_def)
  have hne: "page_lru_head s \<noteq> None" using h x by (cases as) auto
  show ?thesis
  proof (cases "bs @ as = []")
    case True
    then have e: "as = []" "bs = []" by simp_all
    have np: "nexts s pg = Some pg" "prevs s pg = Some pg"
      using r e by (simp_all add: ringl_single)
    have hp: "page_lru_head s = Some pg" using h x e by simp
    have u: "unlink pg s = Inr s" using unlink_single r e by simp
    have q: "s\<lparr>page_lru_head := Some pg\<rparr> = s" using hp by simp
    have sn: "set_next pg (Some pg) s = s" "set_prev pg (Some pg) s = s"
      using np by (simp_all add: set_next_same set_prev_same)
    have lt: "link_tail pg s = Inr s"
      using hp np(2) sn by (simp add: link_tail_def Let_def prevs_def)
    have "lru_move_to_tail_locked pg s = Inr s"
      using hp np(1) u lt by (simp add: lru_move_to_tail_locked_def nexts_def q)
    moreover have "lru_ring s (remove1 pg xs @ [pg])" using assms(1) x e by simp
    moreover have "next_pg (pages s pg) = page_lru_head s" using hp np(1) by (simp add: nexts_def)
    ultimately show ?thesis by auto
  next
    case False
    let ?rest = "bs @ as"
    have np: "nexts s pg = Some (hd ?rest)"
      using ringl_unlink(1) [OF r False] .
    let ?u = "set_prev (hd ?rest) (Some (last ?rest)) (set_next (last ?rest) (Some (hd ?rest)) s)"
    have u: "unlink pg s = Inr ?u" using unlink_ring [OF r False] .
    have ru: "ringl (nexts ?u) (prevs ?u) ?rest"
      using ringl_unlink(3) [OF r False] by simp
    have "last ?rest \<in> set ?rest" using False by (intro last_in_set)
    then have nl: "last ?rest \<noteq> pg" using na nb by auto
    have nu: "nexts ?u pg = Some (hd ?rest)" using np nl by simp
    then have nu': "next_pg (pages ?u pg) = Some (hd ?rest)" by (simp only: nexts_def)
    define v where "v = (if page_lru_head ?u = Some pg
        then ?u\<lparr>page_lru_head := next_pg (pages ?u pg)\<rparr> else ?u)"
    have ne: "as @ bs \<noteq> []" using False by auto
    have hv: "page_lru_head v = Some (hd (as @ bs))"
    proof (cases as)
      case Nil
      then show ?thesis using h x nu' by (simp add: v_def)
    next
      case (Cons a as')
      then show ?thesis using h x na by (auto simp: v_def)
    qed
    have lv: "nexts v = nexts ?u" "prevs v = prevs ?u" by (simp_all add: v_def)
    have nv: "num_lru_pages v = num_lru_pages s" by (simp add: v_def)
    have sv: "same_frames s v" by (simp add: v_def)
    have rv: "ringl (nexts v) (prevs v) (as @ bs)"
      using ru ringl_rot [of _ _ bs as] by (simp only: lv)
    have pn: "pg \<notin> set (as @ bs)" using na nb by simp
    let ?ys = "as @ bs"
    let ?s = "set_prev (hd ?ys) (Some pg) (set_next (last ?ys) (Some pg)
            (set_prev pg (Some (last ?ys)) (set_next pg (Some (hd ?ys)) v)))"
    have lt: "link_tail pg v = Inr ?s"
      using link_tail_ring [OF rv ne pn hv] .
    have c: "\<not> (page_lru_head s = None \<or> next_pg (pages s pg) = None)"
      using hne np by (simp add: nexts_def)
    have m: "lru_move_to_tail_locked pg s = Inr ?s"
      unfolding lru_move_to_tail_locked_def
      by (simp only: c if_False u sum.case lt v_def [symmetric])
    have 1: "ringl (nexts ?s) (prevs ?s) (?ys @ [pg])"
      using ringl_link(2) [OF rv ne pn] by simp
    have 2: "page_lru_head ?s = (case ?ys @ [pg] of [] \<Rightarrow> None | h # _ \<Rightarrow> Some h)"
    proof (cases ?ys)
      case Nil
      then show ?thesis using ne by simp
    next
      case (Cons c cs)
      then have "hd ?ys = c" by simp
      with hv Cons show ?thesis by simp
    qed
    have 3: "num_lru_pages ?s = int (length (?ys @ [pg]))"
      using n x nv by simp
    have 4: "\<forall>i. i \<notin> set (?ys @ [pg]) \<longrightarrow> nexts ?s i = None \<and> prevs ?s i = None"
      using o x hd_in_set [OF False] last_in_set [OF False] hd_in_set [OF ne] last_in_set [OF ne]
      by (auto simp: lv)
    have 5: "next_pg (pages ?s pg) = page_lru_head ?s"
    proof -
      have "hd ?ys \<noteq> pg" "last ?ys \<noteq> pg"
        using hd_in_set [OF ne] last_in_set [OF ne] pn by auto
      then have "nexts ?s pg = Some (hd ?ys)" by simp
      then have "next_pg (pages ?s pg) = Some (hd ?ys)" by (simp only: nexts_def)
      moreover have "page_lru_head ?s = Some (hd ?ys)" using hv by simp
      ultimately show ?thesis by simp
    qed
    have 6: "same_frames s ?s" using sv by simp
    have "lru_ring ?s (remove1 pg xs @ [pg])"
      unfolding rm lru_ring_def using 1 2 3 4 by blast
    with m 5 6 show ?thesis by blast
  qed
qed

subsection \<open>The invariant of the LRU list\<close>

lemma lru_ring_linked: "lru_ring s xs \<Longrightarrow> linked s pg = (pg \<in> set xs)"
proof
  assume r: "lru_ring s xs" and l: "linked s pg"
  show "pg \<in> set xs"
  proof (rule ccontr)
    assume "pg \<notin> set xs"
    with r have "nexts s pg = None" by (simp add: lru_ring_def)
    with l show False by (simp add: linked_def nexts_def)
  qed
next
  assume r: "lru_ring s xs" and m: "pg \<in> set xs"
  then have "ringl (nexts s) (prevs s) xs" by (simp add: lru_ring_def)
  from ringl_member [OF this m] show "linked s pg"
    by (auto simp: linked_def nexts_def)
qed

lemma lru_ring_links:
  assumes "lru_ring s xs" "linked s pg"
  shows "\<exists>n p. next_pg (pages s pg) = Some n \<and> prev_pg (pages s n) = Some pg
             \<and> prev_pg (pages s pg) = Some p \<and> next_pg (pages s p) = Some pg"
proof -
  have m: "pg \<in> set xs" using assms lru_ring_linked by simp
  have "ringl (nexts s) (prevs s) xs" using assms(1) by (simp add: lru_ring_def)
  from ringl_member [OF this m] show ?thesis
    by (auto simp: nexts_def prevs_def)
qed

lemma lru_ring_count:
  assumes "lru_ring s xs"
  shows "num_lru_pages s = int (card {i. linked s i})"
    "(page_lru_head s = None) = (num_lru_pages s = 0)"
proof -
  have "{i. linked s i} = set xs" using lru_ring_linked [OF assms] by auto
  moreover have "distinct xs" using assms by (simp add: lru_ring_def ringl_def)
  ultimately show "num_lru_pages s = int (card {i. linked s i})"
    using assms by (simp add: lru_ring_def distinct_card)
  show "(page_lru_head s = None) = (num_lru_pages s = 0)"
    using assms by (cases xs) (simp_all add: lru_ring_def)
qed

lemma lru_step_ring:
  assumes "lru_ring s xs" "lru_pre x s"
  shows "\<exists>s' ys. lru_step x s = Inr s' \<and> lru_ring s' ys"
proof (cases x)
  case (Add pg)
  then have "pg \<notin> set xs" using assms lru_ring_linked by simp
  from lru_add_ring [OF assms(1) this] Add show ?thesis by auto
next
  case (Remove pg)
  then have "pg \<in> set xs" using assms lru_ring_linked by simp
  from lru_remove_ring [OF assms(1) this] Remove show ?thesis by auto
next
  case (MoveToTail pg)
  show ?thesis
  proof (cases "pg \<in> set xs")
    case True
    from lru_move_ring [OF assms(1) this] MoveToTail show ?thesis by auto
  next
    case False
    then have "\<not> linked s pg" using assms(1) lru_ring_linked by simp
    then have "lru_move_to_tail_locked pg s = Inr s"
      by (simp add: lru_move_unlinked linked_def)
    with assms(1) MoveToTail show ?thesis by auto
  qed
qed

lemma lru_run_ring:
  "lru_ring s xs \<Longrightarrow> lru_legal ops s \<Longrightarrow> \<exists>s' ys. lru_run ops s = Inr s' \<and> lru_ring s' ys"
proof (induction ops arbitrary: s xs)
  case Nil
  then show ?case by auto
next
  case (Cons x ops)
  from Cons.prems have p: "lru_pre x s" by simp
  from lru_step_ring [OF Cons.prems(1) p] obtain s1 ys
    where s: "lru_step x s = Inr s1" and r: "lru_ring s1 ys" by blast
  from Cons.prems(2) s have "lru_legal ops s1" by simp
  from Cons.IH [OF r this] s show ?case by simp
qed

text \<open>
  C10. Start from the empty list (head null, count zero, every frame unlinked) and run any
  sequence of \<open>lru_add\<close> of frames that are not linked, \<open>lru_remove\<close> of frames that
  are, and \<open>lru_move_to_tail_locked\<close> of any frame. No call traps, and the result is a
  circular doubly linked list: \<open>num_lru_pages\<close> is the number of linked frames, the head
  is null exactly when that number is zero, every linked frame \<open>pg\<close> has
  \<open>pg->next->prev == pg\<close> and \<open>pg->prev->next == pg\<close>, and
  \<open>lru_move_to_tail_locked\<close> on the empty list or on an unlinked frame changes nothing.
\<close>

theorem lru_invariant:
  assumes "lru_ring s0 []" "lru_legal ops s0"
  shows "\<exists>s xs. lru_run ops s0 = Inr s \<and> lru_ring s xs
           \<and> num_lru_pages s = int (card {i. linked s i})
           \<and> ((page_lru_head s = None) = (num_lru_pages s = 0))
           \<and> (\<forall>pg. linked s pg \<longrightarrow>
                 (\<exists>n p. next_pg (pages s pg) = Some n \<and> prev_pg (pages s n) = Some pg
                        \<and> prev_pg (pages s pg) = Some p \<and> next_pg (pages s p) = Some pg))
           \<and> (\<forall>pg. page_lru_head s = None \<or> \<not> linked s pg \<longrightarrow>
                 lru_move_to_tail_locked pg s = Inr s)"
proof -
  from lru_run_ring [OF assms] obtain s xs
    where r: "lru_run ops s0 = Inr s" "lru_ring s xs" by blast
  have "\<forall>pg. page_lru_head s = None \<or> \<not> linked s pg \<longrightarrow> lru_move_to_tail_locked pg s = Inr s"
    by (simp add: lru_move_unlinked linked_def)
  moreover have "\<forall>pg. linked s pg \<longrightarrow>
      (\<exists>n p. next_pg (pages s pg) = Some n \<and> prev_pg (pages s n) = Some pg
             \<and> prev_pg (pages s pg) = Some p \<and> next_pg (pages s p) = Some pg)"
    using lru_ring_links [OF r(2)] by blast
  ultimately show ?thesis
    using r lru_ring_count [OF r(2)]
    by (intro exI [of _ s] exI [of _ xs] conjI)
qed

theorem lru_invariant_witness:
  "\<exists>s xs. lru_run [Add 15, Add 16, MoveToTail 15, Remove 16] boot_state = Inr s
     \<and> lru_ring s xs \<and> num_lru_pages s = int (card {i. linked s i})
     \<and> ((page_lru_head s = None) = (num_lru_pages s = 0))"
proof -
  have a: "lru_ring boot_state []"
    by (simp add: lru_ring_def ringl_def cyc_def boot_state_def nexts_def prevs_def)
  have b: "lru_legal [Add 15, Add 16, MoveToTail 15, Remove 16] boot_state"
    by (simp add: boot_state_def linked_def lru_add_def lru_remove_def lru_move_to_tail_locked_def
        link_tail_def unlink_def set_next_def set_prev_def Let_def)
  from lru_invariant [OF a b] obtain s xs
    where "lru_run [Add 15, Add 16, MoveToTail 15, Remove 16] boot_state = Inr s"
      "lru_ring s xs" "num_lru_pages s = int (card {i. linked s i})"
      "(page_lru_head s = None) = (num_lru_pages s = 0)"
    by (elim exE conjE)
  then show ?thesis
    by (intro exI [of _ s] exI [of _ xs] conjI)
qed

subsection \<open>lru_remove\<close>

lemma all_accessed_ring: "lru_ring all_accessed_state [15, 16, 17]"
  by (simp add: lru_ring_def ringl_def cyc_def all_accessed_state_def boot_state_def
      nexts_def prevs_def)

text \<open>
  C7, as the claim states it: \<open>lru_remove\<close> would also clear the owner reference and the
  virtual address of the frame. It does not: lines 143 and 144 clear the two links only.
  Removing frame 16 from the list of three leaves its \<open>pagetable\<close> and \<open>vaddr\<close> as
  they were.
\<close>

theorem lru_remove_keeps_owner:
  "lru_ring all_accessed_state [15, 16, 17]
   \<and> (\<exists>s'. lru_remove 16 all_accessed_state = Inr s'
         \<and> pagetable (pages s' 16) = 0x87FFE000 \<and> pagetable (pages s' 16) \<noteq> 0
         \<and> vaddr (pages s' 16) = 0x5000 \<and> vaddr (pages s' 16) \<noteq> 0
         \<and> next_pg (pages s' 16) = None \<and> prev_pg (pages s' 16) = None)"
  by (simp add: all_accessed_ring)
    (simp add: all_accessed_state_def boot_state_def lru_remove_def unlink_def
      set_next_def set_prev_def Let_def)

text \<open>
  C7, amended. For a frame enrolled in a well-formed list, \<open>lru_remove\<close> returns, the
  other frames stay a ring in their former order, the head moves to the successor when
  the frame was the head and becomes null when it was the only member, both links of
  the frame are cleared and the count drops by one; \<open>pagetable\<close> and \<open>vaddr\<close> keep
  their values.
\<close>

theorem lru_remove_splices:
  assumes "lru_ring s xs" "pg \<in> set xs"
  shows "\<exists>s'. lru_remove pg s = Inr s' \<and> lru_ring s' (remove1 pg xs)
           \<and> page_lru_head s' =
               (if xs = [pg] then None
                else if hd xs = pg then Some (hd (tl xs)) else page_lru_head s)
           \<and> next_pg (pages s' pg) = None \<and> prev_pg (pages s' pg) = None
           \<and> num_lru_pages s' = num_lru_pages s - 1
           \<and> pagetable (pages s' pg) = pagetable (pages s pg)
           \<and> vaddr (pages s' pg) = vaddr (pages s pg)"
proof -
  from lru_remove_ring [OF assms] obtain s'
    where r: "lru_remove pg s = Inr s'" "lru_ring s' (remove1 pg xs)" "same_frames s s'"
    by blast
  have d: "distinct xs" using assms(1) by (simp add: lru_ring_def ringl_def)
  then have "pg \<notin> set (remove1 pg xs)" by simp
  with r(2) have l: "next_pg (pages s' pg) = None \<and> prev_pg (pages s' pg) = None"
    by (simp add: lru_ring_def nexts_def prevs_def)
  have n: "num_lru_pages s' = num_lru_pages s - 1"
    using r(2) assms by (simp add: lru_ring_def length_remove1) (cases xs; simp)
  have h: "page_lru_head s' =
      (if xs = [pg] then None else if hd xs = pg then Some (hd (tl xs)) else page_lru_head s)"
  proof (cases xs)
    case Nil
    with assms(2) show ?thesis by simp
  next
    case (Cons a as)
    show ?thesis
    proof (cases "a = pg")
      case True
      with Cons r(2) show ?thesis by (cases as) (simp_all add: lru_ring_def)
    next
      case False
      with Cons r(2) assms(1) show ?thesis by (simp add: lru_ring_def)
    qed
  qed
  have o: "pagetable (pages s' pg) = pagetable (pages s pg) \<and> vaddr (pages s' pg) = vaddr (pages s pg)"
    using r(3) by (simp add: same_frames_def)
  show ?thesis using r(1,2) h l n o by (intro exI [of _ s']) simp
qed

theorem lru_remove_splices_witness:
  "\<exists>s'. lru_remove 16 all_accessed_state = Inr s' \<and> lru_ring s' [15, 17]
      \<and> page_lru_head s' = Some 15 \<and> num_lru_pages s' = 2
      \<and> pagetable (pages s' 16) = 0x87FFE000"
proof -
  have m: "(16::nat) \<in> set [15, 16, 17]" by simp
  from lru_remove_splices [OF all_accessed_ring m] obtain s'
    where "lru_remove 16 all_accessed_state = Inr s'" "lru_ring s' (remove1 16 [15, 16, 17])"
      "page_lru_head s' = (if [15, 16, 17] = [16::nat] then None
         else if hd [15, 16, 17] = (16::nat) then Some (hd (tl [15, 16, 17]))
         else page_lru_head all_accessed_state)"
      "num_lru_pages s' = num_lru_pages all_accessed_state - 1"
      "pagetable (pages s' 16) = pagetable (pages all_accessed_state 16)"
    by (elim exE conjE)
  then show ?thesis
    by (intro exI [of _ s']) (simp add: all_accessed_state_def boot_state_def)
qed

subsection \<open>The clock scan\<close>

lemma lru_ring_pte_upd [simp]: "lru_ring (s\<lparr>pte_mem := m\<rparr>) xs = lru_ring s xs"
  by (simp add: lru_ring_def)

lemma scan_post_mono:
  "scan_post s xs (r + 1) res \<Longrightarrow> r + 1 \<le> num_lru_pages s \<Longrightarrow> scan_post s xs r res"
  by (auto simp: scan_post_def)

lemma swapout_loop_ring:
  assumes "lru_ring s xs"
  shows "c \<in> set xs \<Longrightarrow> \<exists>res. swapout_loop s (Some c) r = Inr res \<and> scan_post s xs r res"
proof (induction "nat (num_lru_pages s - r)" arbitrary: r c rule: less_induct)
  case less
  have rl: "ringl (nexts s) (prevs s) xs" using assms by (simp add: lru_ring_def)
  from ringl_member [OF rl less.prems] obtain n
    where n: "next_pg (pages s c) = Some n" "n \<in> set xs"
    by (auto simp: nexts_def)
  let ?adv = "if r + 1 > num_lru_pages s
        then Inr (None, next_pg (pages s c), r + 1, s)
        else if next_pg (pages s c) \<noteq> page_lru_head s \<and> r + 1 \<le> num_lru_pages s
        then swapout_loop s (next_pg (pages s c)) (r + 1)
        else Inr (None, next_pg (pages s c), r + 1, s)"
  have adv: "\<exists>res. ?adv = Inr res \<and> scan_post s xs r res"
  proof (cases "r + 1 > num_lru_pages s")
    case True
    then show ?thesis using assms by (auto simp: scan_post_def)
  next
    case False
    show ?thesis
    proof (cases "next_pg (pages s c) \<noteq> page_lru_head s")
      case True
      have "nat (num_lru_pages s - (r + 1)) < nat (num_lru_pages s - r)"
        using False by simp
      from less.hyps [OF this n(2)] obtain res
        where "swapout_loop s (Some n) (r + 1) = Inr res" "scan_post s xs (r + 1) res"
        by blast
      with False True n(1) show ?thesis
        by (auto intro: scan_post_mono)
    next
      case nh: False
      with False show ?thesis using assms by (auto simp: scan_post_def)
    qed
  qed
  define pt where "pt = walk_tbl s (pagetable (pages s c)) (vaddr (pages s c))"
  consider (skip) "pagetable (pages s c) = 0 \<or> vaddr (pages s c) = 0"
    | (stale) "\<not> (pagetable (pages s c) = 0 \<or> vaddr (pages s c) = 0)"
        "pt = 0 \<or> pte_mem s pt AND PTE_V = 0"
    | (victim) "\<not> (pagetable (pages s c) = 0 \<or> vaddr (pages s c) = 0)"
        "\<not> (pt = 0 \<or> pte_mem s pt AND PTE_V = 0)" "pte_mem s pt AND PTE_A = 0"
    | (second) "\<not> (pagetable (pages s c) = 0 \<or> vaddr (pages s c) = 0)"
        "\<not> (pt = 0 \<or> pte_mem s pt AND PTE_V = 0)" "pte_mem s pt AND PTE_A \<noteq> 0"
    by blast
  then show ?case
  proof cases
    case skip
    then have "swapout_loop s (Some c) r = ?adv"
      by (subst swapout_loop.simps) simp
    with adv show ?thesis by simp
  next
    case stale
    then have "swapout_loop s (Some c) r = ?adv"
      by (subst swapout_loop.simps) (simp add: pt_def)
    with adv show ?thesis by simp
  next
    case victim
    then have "swapout_loop s (Some c) r = Inr (Some c, Some c, r, s)"
      by (subst swapout_loop.simps) (simp add: pt_def)
    moreover have "scan_post s xs r (Some c, Some c, r, s)"
      using victim less.prems assms by (auto simp: scan_post_def victim_ok_def pt_def)
    ultimately show ?thesis by simp
  next
    case second
    let ?s2 = "s\<lparr>pte_mem := (pte_mem s)(pt := pte_mem s pt AND NOT PTE_A)\<rparr>"
    have "lru_ring ?s2 xs" using assms by simp
    from lru_move_ring [OF this less.prems] obtain s'
      where m: "lru_move_to_tail_locked c ?s2 = Inr s'" "lru_ring s' (remove1 c xs @ [c])"
        "next_pg (pages s' c) = page_lru_head s'"
      by blast
    have "swapout_loop s (Some c) r = Inr (None, next_pg (pages s' c), r + 1, s')"
      using second m(1,3) by (subst swapout_loop.simps) (simp add: pt_def)
    moreover have "set (remove1 c xs @ [c]) = set xs"
      using less.prems rl by (auto simp: ringl_def)
    then have "scan_post s xs r (None, next_pg (pages s' c), r + 1, s')"
      using m(2) by (auto simp: scan_post_def)
    ultimately show ?thesis by simp
  qed
qed

text \<open>
  C8. On a well-formed, non-empty list (\<open>swapout\<close> returns before the loop on an empty
  one) the scan returns, whatever the translation entries hold, after looking at no more
  than \<open>num_lru_pages + 1\<close> candidates: the body of the loop looks at one candidate each
  time it runs, and it has run \<open>rounds\<close> times when the loop is left without a victim,
  \<open>rounds + 1\<close> times when it is left with one.
\<close>

theorem swapout_scan_bounded:
  assumes "lru_ring s xs" "xs \<noteq> []"
  shows "\<exists>victim cur rounds s'.
           swapout_loop s (page_lru_head s) 0 = Inr (victim, cur, rounds, s')
           \<and> 0 \<le> rounds
           \<and> rounds + (if victim = None then 0 else 1) \<le> num_lru_pages s + 1"
proof -
  from assms obtain h t where x: "xs = h # t" by (cases xs) auto
  then have h: "page_lru_head s = Some h" "h \<in> set xs" "0 \<le> num_lru_pages s"
    using assms(1) by (simp_all add: lru_ring_def)
  from swapout_loop_ring [OF assms(1) h(2), of 0] obtain res
    where r: "swapout_loop s (Some h) 0 = Inr res" "scan_post s xs 0 res" by blast
  obtain victim cur rounds s' where e: "res = (victim, cur, rounds, s')"
    by (cases res) auto
  have "0 \<le> rounds" "rounds + (if victim = None then 0 else 1) \<le> num_lru_pages s + 1"
    using r(2) h(3) unfolding e scan_post_def by simp_all
  with r(1) e h(1) show ?thesis by simp
qed

theorem swapout_scan_bounded_witness:
  "\<exists>victim cur rounds s'.
     swapout_loop all_accessed_state (page_lru_head all_accessed_state) 0
       = Inr (victim, cur, rounds, s')
     \<and> 0 \<le> rounds \<and> rounds + (if victim = None then 0 else 1) \<le> 4"
proof -
  have n: "[15, 16, 17] \<noteq> ([] :: nat list)" by simp
  have "num_lru_pages all_accessed_state + 1 = 4"
    by (simp add: all_accessed_state_def boot_state_def)
  with swapout_scan_bounded [OF all_accessed_ring n] show ?thesis by simp
qed

subsection \<open>The clock scan on a list of accessed frames\<close>

text \<open>
  Whenever the head of a well-formed list is mapped Valid and Accessed, \<open>swapout\<close>
  clears that one flag, moves the head to the tail and fails.
\<close>

lemma swapout_accessed_head_fails:
  assumes "lru_ring s (h # t)"
    and "pagetable (pages s h) \<noteq> 0" "vaddr (pages s h) \<noteq> 0"
    and "walk_tbl s (pagetable (pages s h)) (vaddr (pages s h)) = p" "p \<noteq> 0"
    and "pte_mem s p AND PTE_V \<noteq> 0" "pte_mem s p AND PTE_A \<noteq> 0"
  shows "\<exists>s'. swapout cfg s = Inr (-1, s') \<and> lru_ring s' (t @ [h])
           \<and> pte_mem s' = (pte_mem s)(p := pte_mem s p AND NOT PTE_A)
           \<and> freelist s' = freelist s \<and> swap_bitmap s' = swap_bitmap s
           \<and> swap_disk s' = swap_disk s"
proof -
  have hd: "page_lru_head s = Some h" using assms(1) by (simp add: lru_ring_def)
  let ?s2 = "s\<lparr>pte_mem := (pte_mem s)(p := pte_mem s p AND NOT PTE_A)\<rparr>"
  have "lru_ring ?s2 (h # t)" using assms(1) by simp
  from lru_move_ring [OF this, of h] obtain s'
    where m: "lru_move_to_tail_locked h ?s2 = Inr s'" "lru_ring s' (remove1 h (h # t) @ [h])"
      "same_frames ?s2 s'" "next_pg (pages s' h) = page_lru_head s'"
    by auto
  have "swapout_loop s (Some h) 0 = Inr (None, next_pg (pages s' h), 0 + 1, s')"
    using assms(2-7) m(1,4) by (subst swapout_loop.simps) simp
  then have "swapout cfg s = Inr (-1, s')" by (simp add: swapout_def hd)
  moreover have "lru_ring s' (t @ [h])" using m(2) by simp
  moreover have "pte_mem s' = (pte_mem s)(p := pte_mem s p AND NOT PTE_A)"
    "freelist s' = freelist s" "swap_bitmap s' = swap_bitmap s" "swap_disk s' = swap_disk s"
    using m(3) by (simp_all add: same_frames_def)
  ultimately show ?thesis by blast
qed

text \<open>
  C1. With every enrolled frame mapped Valid and Accessed, one call of \<open>swapout\<close>
  should clear every Accessed flag and then evict the former head. The loop condition
  \<open>curr != page_lru_head\<close> is tested after \<open>lru_move_to_tail_locked\<close> has made the
  successor of \<open>curr\<close> the new head, so the loop is left after its first step: on three
  frames \<open>swapout\<close> returns -1, only the entry of the former head has lost its
  Accessed flag, the three frames are still enrolled and nothing was freed.
\<close>

theorem swapout_all_accessed_fails:
  "\<exists>s'. swapout cfg0 all_accessed_state = Inr (-1, s')
     \<and> pte_mem all_accessed_state 0x87FFF020 = 0x2000C057
     \<and> pte_mem s' 0x87FFF020 = 0x2000C017
     \<and> pte_mem s' 0x87FFF028 = 0x2000C457
     \<and> pte_mem s' 0x87FFF030 = 0x2000C857
     \<and> page_lru_head s' = Some 16 \<and> num_lru_pages s' = 3
     \<and> next_pg (pages s' 15) = Some 16 \<and> next_pg (pages s' 16) = Some 17
     \<and> next_pg (pages s' 17) = Some 15
     \<and> freelist s' = 0"
  by (simp add: all_accessed_state_def boot_state_def swapout_def swapout_loop.simps
      lru_move_to_tail_locked_def unlink_def link_tail_def set_next_def set_prev_def
      PTE_V_def PTE_A_def Let_def)

subsection \<open>Swap slots\<close>

lemma swap_alloc_from_cases:
  "swap_alloc_from cfg i s = (b, s') \<Longrightarrow>
     (b = -1 \<and> s' = s)
     \<or> (i \<le> b \<and> b < SWAP_PAGES cfg
        \<and> swap_bitmap s (nat (b div 8)) AND slot_mask b = 0
        \<and> s' = s\<lparr>swap_bitmap := (swap_bitmap s)
               (nat (b div 8) := swap_bitmap s (nat (b div 8)) OR slot_mask b)\<rparr>)"
proof (induction cfg i s rule: swap_alloc_from.induct)
  case (1 cfg i s)
  show ?case
  proof (cases "i < SWAP_PAGES cfg")
    case False
    with "1.prems" show ?thesis by (simp add: swap_alloc_from.simps)
  next
    case True
    show ?thesis
    proof (cases "swap_bitmap s (nat (i div 8)) AND slot_mask i = 0")
      case z: True
      with True "1.prems" have "b = i"
        "s' = s\<lparr>swap_bitmap := (swap_bitmap s)
               (nat (i div 8) := swap_bitmap s (nat (i div 8)) OR slot_mask i)\<rparr>"
        by (subst (asm) swap_alloc_from.simps, simp add: Let_def)+
      then show ?thesis
        using True z by (intro disjI2 conjI) (simp_all only: order_refl)
    next
      case nz: False
      with True "1.prems" have "swap_alloc_from cfg (i + 1) s = (b, s')"
        by (subst (asm) swap_alloc_from.simps) (simp add: Let_def)
      from "1.IH" [OF True refl nz this] show ?thesis by auto
    qed
  qed
qed

lemma swap_alloc_cases:
  "swap_alloc cfg s = (b, s') \<Longrightarrow>
     (b = -1 \<and> s' = s)
     \<or> (0 \<le> b \<and> b < SWAP_PAGES cfg
        \<and> swap_bitmap s (nat (b div 8)) AND slot_mask b = 0
        \<and> s' = s\<lparr>swap_bitmap := (swap_bitmap s)
               (nat (b div 8) := swap_bitmap s (nat (b div 8)) OR slot_mask b)\<rparr>)"
  unfolding swap_alloc_def by (rule swap_alloc_from_cases)

lemma or_and_not_mask:
  fixes x m :: "8 word"
  assumes "x AND m = 0"
  shows "(x OR m) AND NOT m = x"
proof (rule bit_word_eqI)
  fix n
  have "bit (x AND m) n = bit (0 :: 8 word) n" using assms by simp
  then have "\<not> (bit x n \<and> bit m n)" by (simp add: bit_and_iff)
  then show "bit ((x OR m) AND NOT m) n = bit x n"
    by (auto simp: bit_and_iff bit_or_iff bit_not_iff dest: bit_imp_possible_bit)
qed

lemma swap_free_after_alloc:
  assumes "0 \<le> b" "b < SWAP_PAGES cfg" "swap_bitmap s (nat (b div 8)) AND slot_mask b = 0"
  shows "swap_free cfg b (s\<lparr>swap_bitmap := (swap_bitmap s)
           (nat (b div 8) := swap_bitmap s (nat (b div 8)) OR slot_mask b)\<rparr>) = s"
  using assms by (simp add: swap_free_def Let_def or_and_not_mask)

lemma swapout_victim_fail:
  assumes "swapout_victim cfg v s = Inr (rc, s')" "rc < 0"
  shows "s' = s"
proof -
  obtain b s1 where a: "swap_alloc cfg s = (b, s1)" by (cases "swap_alloc cfg s")
  from swap_alloc_cases [OF a] show ?thesis
  proof
    assume "b = -1 \<and> s1 = s"
    with assms a show ?thesis by (simp add: swapout_victim_def)
  next
    assume c: "0 \<le> b \<and> b < SWAP_PAGES cfg
        \<and> swap_bitmap s (nat (b div 8)) AND slot_mask b = 0
        \<and> s1 = s\<lparr>swap_bitmap := (swap_bitmap s)
               (nat (b div 8) := swap_bitmap s (nat (b div 8)) OR slot_mask b)\<rparr>"
    then have f: "swap_free cfg b s1 = s" using swap_free_after_alloc by simp
    from c have nb: "\<not> b < 0" by simp
    define pte where "pte = walk_tbl s1 (pagetable (pages s1 v)) (vaddr (pages s1 v))"
    show ?thesis
    proof (cases "pte = 0 \<or> pte_mem s1 pte AND PTE_V = 0")
      case True
      have "swapout_victim cfg v s = Inr (-1, swap_free cfg b s1)"
        using True nb by (simp add: swapout_victim_def a pte_def [symmetric] Let_def)
      with assms(1) f show ?thesis by simp
    next
      case False
      have "rc = 0"
        using assms(1) False nb
        by (simp add: swapout_victim_def a pte_def [symmetric] Let_def split: sum.splits)
      with assms(2) show ?thesis by simp
    qed
  qed
qed

text \<open>
  C3. When \<open>swapout\<close> fails after a victim was chosen, nothing has changed. First, for
  the part of \<open>swapout\<close> after the loop, entered in any state with any victim (so also
  a state in which the entry of the victim has meanwhile become invalid): if it returns
  -1, because \<open>swap_alloc\<close> found no slot or because the entry read again is missing or
  not Valid, the state it returns is the state it was entered with; a slot taken by
  \<open>swap_alloc\<close> has been cleared again by \<open>swap_free\<close>. Second, for the whole of
  \<open>swapout\<close> on a well-formed list: a scan that chooses a victim has changed nothing,
  so a failing \<open>swapout\<close> returns the state it was called in, with the victim still
  enrolled.
\<close>

theorem swapout_failure_atomic:
  "(swapout_victim cfg v s = Inr (rc, s') \<and> rc < 0 \<longrightarrow> s' = s)
   \<and> (lru_ring s xs \<and> swapout_loop s (page_lru_head s) 0 = Inr (Some v, c, r, s1)
        \<and> swapout cfg s = Inr (rc, s') \<and> rc < 0
      \<longrightarrow> s1 = s \<and> s' = s \<and> v \<in> set xs \<and> linked s' v)"
proof (rule conjI; rule impI)
  assume "swapout_victim cfg v s = Inr (rc, s') \<and> rc < 0"
  then show "s' = s" using swapout_victim_fail by blast
next
  assume a: "lru_ring s xs \<and> swapout_loop s (page_lru_head s) 0 = Inr (Some v, c, r, s1)
        \<and> swapout cfg s = Inr (rc, s') \<and> rc < 0"
  then have a1: "lru_ring s xs"
    and a2: "swapout_loop s (page_lru_head s) 0 = Inr (Some v, c, r, s1)"
    and a3: "swapout cfg s = Inr (rc, s')" and a4: "rc < 0"
    by simp_all
  have ne: "page_lru_head s \<noteq> None"
  proof
    assume "page_lru_head s = None"
    with a2 show False by (simp add: swapout_loop.simps)
  qed
  then obtain h t where x: "xs = h # t" "page_lru_head s = Some h"
    using a1 by (cases xs) (auto simp: lru_ring_def)
  then have "h \<in> set xs" by simp
  from swapout_loop_ring [OF a1 this, of 0] a2 x
  have p: "scan_post s xs 0 (Some v, c, r, s1)" by auto
  then have q: "s1 = s" "v \<in> set xs" by (simp_all add: scan_post_def)
  have "swapout_victim cfg v s1 = Inr (rc, s')"
    using a3 ne by (simp add: swapout_def a2)
  with a4 q have "s' = s" using swapout_victim_fail by blast
  with q show "s1 = s \<and> s' = s \<and> v \<in> set xs \<and> linked s' v"
    using a1 lru_ring_linked by blast
qed

lemma full_swap_ring: "lru_ring full_swap_state [15, 16, 17]"
  by (simp add: lru_ring_def ringl_def cyc_def full_swap_state_def all_accessed_state_def
      boot_state_def nexts_def prevs_def)

theorem swapout_failure_atomic_witness:
  "swapout cfg_small full_swap_state = Inr (-1, full_swap_state)
   \<and> swapout_victim cfg0 3 all_accessed_state = Inr (-1, all_accessed_state)"
proof -
  have l: "\<exists>c r s1. swapout_loop full_swap_state (page_lru_head full_swap_state) 0
      = Inr (Some 15, c, r, s1)"
    by (simp add: full_swap_state_def all_accessed_state_def boot_state_def swapout_loop.simps
        PTE_V_def PTE_A_def)
  then obtain c r s1
    where l': "swapout_loop full_swap_state (page_lru_head full_swap_state) 0
      = Inr (Some 15, c, r, s1)" by blast
  have "\<exists>s'. swapout cfg_small full_swap_state = Inr (-1, s')"
    by (simp add: full_swap_state_def all_accessed_state_def boot_state_def swapout_def
        swapout_loop.simps PTE_V_def PTE_A_def swapout_victim_def swap_alloc_def
        swap_alloc_from.simps slot_mask_def cfg_small_def)
  then obtain s' where e1: "swapout cfg_small full_swap_state = Inr (-1, s')" by blast
  have "s' = full_swap_state"
    using swapout_failure_atomic [of cfg_small 15 full_swap_state "-1" s' "[15, 16, 17]" c r s1,
        THEN conjunct2] full_swap_ring l' e1
    by simp
  with e1 have 1: "swapout cfg_small full_swap_state = Inr (-1, full_swap_state)" by simp
  have "\<exists>s'. swapout_victim cfg0 3 all_accessed_state = Inr (-1, s')"
    by (simp add: all_accessed_state_def boot_state_def swapout_victim_def swap_alloc_def
        swap_alloc_from.simps slot_mask_def cfg0_def swap_free_def)
  then obtain s'' where e2: "swapout_victim cfg0 3 all_accessed_state = Inr (-1, s'')" by blast
  have "s'' = all_accessed_state"
    using swapout_failure_atomic [of cfg0 3 all_accessed_state "-1" s'', THEN conjunct1] e2
    by simp
  with e2 1 show ?thesis by simp
qed

subsection \<open>Words\<close>

lemma small_int_bits:
  fixes b :: int
  assumes "0 \<le> b" "b < 2 ^ n"
  shows "bit b k = (k < n \<and> bit b k)"
proof -
  have "take_bit n b = b" using assms by (simp add: take_bit_int_eq_self)
  then have "bit b k = bit (take_bit n b) k" by simp
  then show ?thesis by (simp add: bit_take_bit_iff)
qed

lemma slot_shift:
  assumes "0 \<le> b" "b < 2097152"
  shows "(scast (push_bit 10 (word_of_int b :: 32 word)) :: 64 word) = push_bit 10 (word_of_int b)"
proof (rule bit_word_eqI)
  fix n
  assume n: "n < LENGTH(64)"
  have hb: "bit b k = (k < 21 \<and> bit b k)" for k
    using small_int_bits [of b 21 k] assms by simp
  show "bit (scast (push_bit 10 (word_of_int b :: 32 word)) :: 64 word) n
      = bit (push_bit 10 (word_of_int b) :: 64 word) n"
    using n hb [of "n - 10"] hb [of 21]
    by (auto simp: bit_word_scast_iff bit_push_bit_iff bit_word_of_int_iff)
qed

lemma mask10: "(0x3FF :: 64 word) = mask 10"
  by (simp add: mask_eq_exp_minus_1)

lemma swapped_pte_valid: "swapped_pte b old AND PTE_V = 0"
  by (rule bit_word_eqI)
    (auto simp: swapped_pte_def PTE_V_def PTE_FLAGS_def mask10 bit_and_iff bit_or_iff bit_not_iff
      bit_push_bit_iff bit_mask_iff bit_1_iff)

lemma swapped_pte_flags: "swapped_pte b old AND 0x3FF = (old AND 0x3FF) AND NOT PTE_V"
  by (rule bit_word_eqI)
    (auto simp: swapped_pte_def PTE_V_def PTE_FLAGS_def mask10 bit_and_iff bit_or_iff bit_not_iff
      bit_push_bit_iff bit_mask_iff bit_1_iff)

lemma swapped_pte_slot:
  assumes "0 \<le> b" "b < 2097152"
  shows "drop_bit 10 (swapped_pte b old) = word_of_int b"
proof (rule bit_word_eqI)
  fix n
  assume n: "n < LENGTH(64)"
  have hb: "bit b k = (k < 21 \<and> bit b k)" for k
    using small_int_bits [of b 21 k] assms by simp
  show "bit (drop_bit 10 (swapped_pte b old)) n = bit (word_of_int b :: 64 word) n"
    using n hb [of n]
    by (auto simp: swapped_pte_def PTE_V_def PTE_FLAGS_def mask10 bit_and_iff bit_or_iff bit_not_iff
      bit_push_bit_iff bit_mask_iff bit_1_iff bit_drop_bit_eq bit_word_of_int_iff)
qed

lemma swapped_pte_uint:
  assumes "0 \<le> b" "b < 2097152"
  shows "uint (drop_bit 10 (swapped_pte b old)) = b"
proof -
  have "uint (word_of_int b :: 64 word) = b"
    using assms by (simp add: uint_word_of_int take_bit_int_eq_self)
  then show ?thesis using swapped_pte_slot [OF assms] by simp
qed

lemma swapped_pte_decode:
  assumes "0 \<le> b" "b < 2097152"
  shows "sint (ucast (drop_bit 10 (swapped_pte b old)) :: 32 word) = b"
proof -
  have "(ucast (word_of_int b :: 64 word) :: 32 word) = word_of_int b"
    by (rule bit_word_eqI) (auto simp: bit_ucast_iff bit_word_of_int_iff)
  moreover have "sint (word_of_int b :: 32 word) = b"
    using assms by (simp add: sint_sbintrunc' signed_take_bit_int_eq_self)
  ultimately show ?thesis using swapped_pte_slot [OF assms] by simp
qed

lemma page_aligned_bits:
  fixes pa :: "64 word"
  assumes "pa mod PGSIZE = 0" "n < 12"
  shows "\<not> bit pa n"
proof -
  have "take_bit 12 pa = 0" using assms(1) by (simp add: take_bit_eq_mod PGSIZE_def)
  then have "bit (take_bit 12 pa) n = bit (0 :: 64 word) n" by simp
  with assms(2) show ?thesis by (simp add: bit_take_bit_iff)
qed

lemma pte_v_bit: "bit PTE_V n = (n = 0)"
  by (simp add: PTE_V_def bit_1_iff)

lemma pte_a_bit: "bit PTE_A n = (n = 6)"
proof -
  have "bit (2 ^ 6 :: 64 word) n = (n = 6)" by (auto simp only: bit_exp_iff) simp
  moreover have "PTE_A = 2 ^ 6" by (simp add: PTE_A_def)
  ultimately show ?thesis by (simp only:)
qed

lemma restored_pte_flags:
  "PTE_FLAGS (restored_pte pa e) = PTE_FLAGS e OR PTE_V OR PTE_A"
  by (rule bit_word_eqI)
    (auto simp: restored_pte_def PTE_FLAGS_def PA2PTE_def mask10 bit_and_iff
      bit_or_iff bit_push_bit_iff bit_mask_iff pte_v_bit pte_a_bit bit_ucast_iff bit_drop_bit_eq)

lemma restored_pte_pa:
  assumes "pa mod PGSIZE = 0"
  shows "PTE2PA (restored_pte pa e) = pa"
proof (rule bit_word_eqI)
  fix n
  assume n: "n < LENGTH(64)"
  show "bit (PTE2PA (restored_pte pa e)) n = bit pa n"
  proof (cases "n < 12")
    case True
    with page_aligned_bits [OF assms] show ?thesis
      by (simp add: PTE2PA_def bit_push_bit_iff)
  next
    case False
    then have a: "12 \<le> n" "n - 12 + 10 - 10 + 12 = n" "10 \<le> n - 12 + 10" "n - 12 + 10 = n - 2"
      "\<not> n - 2 < 10" "n - 2 \<noteq> 6" "n - 2 \<noteq> 0" "n - 2 - 10 + 12 = n"
      by simp_all
    have "bit (PTE2PA (restored_pte pa e)) n = bit (restored_pte pa e) (n - 2)"
      using a(1,4) n by (simp add: PTE2PA_def bit_push_bit_iff bit_drop_bit_eq)
    also have "\<dots> = bit (PA2PTE pa) (n - 2)"
      using a(5-7) by (simp add: restored_pte_def PTE_FLAGS_def mask10 bit_or_iff bit_ucast_iff
          bit_and_iff bit_mask_iff pte_v_bit pte_a_bit)
    also have "\<dots> = bit pa n"
      using a n by (auto simp: PA2PTE_def bit_push_bit_iff bit_drop_bit_eq)
    finally show ?thesis .
  qed
qed

lemma round_trip_flags:
  assumes "old AND PTE_V \<noteq> 0"
  shows "PTE_FLAGS (restored_pte pa (swapped_pte b old)) = PTE_FLAGS old OR PTE_A"
proof -
  have v: "bit old 0"
  proof (rule ccontr)
    assume "\<not> bit old 0"
    then have "old AND PTE_V = 0"
    proof (intro bit_word_eqI)
      fix n
      show "bit (old AND PTE_V) n = bit (0 :: 64 word) n"
        using \<open>\<not> bit old 0\<close> by (cases "n = 0") (simp_all add: bit_and_iff pte_v_bit)
    qed
    with assms show False by simp
  qed
  show ?thesis
    unfolding restored_pte_flags
  proof (rule bit_word_eqI)
    fix n
    assume "n < LENGTH(64)"
    show "bit (PTE_FLAGS (swapped_pte b old) OR PTE_V OR PTE_A) n = bit (PTE_FLAGS old OR PTE_A) n"
      using v
      by (cases "n = 0")
        (auto simp: swapped_pte_def PTE_FLAGS_def mask10 bit_and_iff
          bit_or_iff bit_not_iff bit_push_bit_iff bit_mask_iff pte_v_bit pte_a_bit)
  qed
qed

lemma flags_modulo_va:
  fixes x y :: "64 word"
  assumes "x = y OR PTE_A"
  shows "x AND NOT (PTE_V OR PTE_A) = y AND NOT (PTE_V OR PTE_A)"
  unfolding assms
  by (rule bit_word_eqI) (auto simp: bit_and_iff bit_or_iff bit_not_iff pte_a_bit pte_v_bit)

lemma restored_valid: "restored_pte pa e AND PTE_V \<noteq> 0"
proof
  assume "restored_pte pa e AND PTE_V = 0"
  then have "bit (restored_pte pa e AND PTE_V) 0 = bit (0 :: 64 word) 0" by simp
  then show False
    by (simp add: restored_pte_def bit_and_iff bit_or_iff pte_v_bit bit_ucast_iff)
qed

lemma page_image_read:
  "page_image (\<lambda>a. if a - pa < PGSIZE then img (unat (a - pa)) else m a) pa
     = (\<lambda>i. if i < 4096 then img i else 0)"
proof
  fix i
  show "page_image (\<lambda>a. if a - pa < PGSIZE then img (unat (a - pa)) else m a) pa i
     = (if i < 4096 then img i else 0)"
  proof (cases "i < 4096")
    case True
    then have "(of_nat i :: 64 word) < PGSIZE" "unat (of_nat i :: 64 word) = i"
      by (simp_all add: PGSIZE_def word_less_nat_alt unat_of_nat)
    with True show ?thesis by (simp add: page_image_def)
  next
    case False
    then show ?thesis by (simp add: page_image_def)
  qed
qed

lemma page_image_idem: "(\<lambda>i. if i < 4096 then page_image m pa i else 0) = page_image m pa"
  by (auto simp: page_image_def fun_eq_iff)

subsection \<open>A successful eviction\<close>

lemma unlink_same: "unlink pg s = Inr s' \<Longrightarrow> same_frames s s'"
  by (auto simp: unlink_def Let_def split: option.splits)

lemma lru_remove_same: "lru_remove pg s = Inr s' \<Longrightarrow> same_frames s s'"
proof -
  assume a: "lru_remove pg s = Inr s'"
  show ?thesis
  proof (cases "next_pg (pages s pg) = Some pg")
    case True
    with a show ?thesis by (auto simp: lru_remove_def Let_def)
  next
    case False
    with a obtain s1 where u: "unlink pg s = Inr s1"
      by (auto simp: lru_remove_def Let_def split: sum.splits)
    have "same_frames s s1" using unlink_same [OF u] .
    with a False u show ?thesis
      by (auto simp: lru_remove_def Let_def split: if_splits)
  qed
qed

lemma swapout_victim_success:
  assumes "swapout_victim cfg v s = Inr (rc, s')" "0 \<le> rc"
  defines "p \<equiv> walk_tbl s (pagetable (pages s v)) (vaddr (pages s v))"
  defines "pa \<equiv> PTE2PA (pte_mem s p)"
  defines "b \<equiv> fst (swap_alloc cfg s)"
  shows "rc = 0 \<and> 0 \<le> b \<and> b < SWAP_PAGES cfg \<and> p \<noteq> 0 \<and> pte_mem s p AND PTE_V \<noteq> 0
    \<and> pte_mem s' = (pte_mem s)(p := scast (push_bit 10 (word_of_int b :: 32 word))
                                     OR (PTE_FLAGS (pte_mem s p) AND NOT PTE_V))
    \<and> swap_disk s' = (swap_disk s)(b := page_image (mem s) pa)
    \<and> pa mod PGSIZE = 0 \<and> kend cfg \<le> pa \<and> pa < PHYSTOP cfg
    \<and> freelist s' = pa
    \<and> mem s' = store64 (memset_pg (mem s) pa 1) pa (freelist s)
    \<and> walk_tbl s' = walk_tbl s
    \<and> (\<exists>s4. lru_remove v (s\<lparr>swap_bitmap := swap_bitmap s', swap_disk := swap_disk s',
               pte_mem := pte_mem s'\<rparr>) = Inr s4
            \<and> s' = s4\<lparr>mem := mem s', freelist := pa\<rparr>)"
proof -
  obtain b' s1 where a: "swap_alloc cfg s = (b', s1)" by (cases "swap_alloc cfg s")
  then have bb: "b = b'" by (simp add: b_def)
  have nneg: "\<not> b' < 0"
  proof
    assume "b' < 0"
    with assms(1) a have "rc = -1" by (simp add: swapout_victim_def)
    with assms(2) show False by simp
  qed
  with swap_alloc_cases [OF a] have c: "0 \<le> b'" "b' < SWAP_PAGES cfg"
    and s1: "s1 = s\<lparr>swap_bitmap := (swap_bitmap s)
               (nat (b' div 8) := swap_bitmap s (nat (b' div 8)) OR slot_mask b')\<rparr>"
    by auto
  have f1: "pages s1 = pages s" "walk_tbl s1 = walk_tbl s" "pte_mem s1 = pte_mem s"
    "mem s1 = mem s" "swap_disk s1 = swap_disk s" "freelist s1 = freelist s"
    by (simp_all add: s1)
  have pv: "\<not> (p = 0 \<or> pte_mem s p AND PTE_V = 0)"
  proof
    assume "p = 0 \<or> pte_mem s p AND PTE_V = 0"
    with assms(1) a nneg have "rc = -1"
      by (simp add: swapout_victim_def f1 p_def Let_def)
    with assms(2) show False by simp
  qed
  define e where "e = scast (push_bit 10 (word_of_int b' :: 32 word))
                                     OR (PTE_FLAGS (pte_mem s p) AND NOT PTE_V)"
  define s3 where "s3 = (swapwrite pa b' s1)\<lparr>pte_mem := (pte_mem s)(p := e)\<rparr>"
  have r: "(case lru_remove v s3 of
              Inl e \<Rightarrow> Inl e
            | Inr s4 \<Rightarrow> (case kfree cfg pa s4 of Inl e \<Rightarrow> Inl e | Inr s5 \<Rightarrow> Inr (0, s5)))
           = Inr (rc, s')"
    using assms(1) a nneg pv
    by (simp add: swapout_victim_def f1 p_def [symmetric] pa_def [symmetric] Let_def s3_def e_def
        swapwrite_def)
  then obtain s4 where l: "lru_remove v s3 = Inr s4"
    and k: "kfree cfg pa s4 = Inr s'" and rc: "rc = 0"
    by (auto split: sum.splits)
  have sf: "same_frames s3 s4" using lru_remove_same [OF l] .
  have k': "pa mod PGSIZE = 0" "kend cfg \<le> pa" "pa < PHYSTOP cfg"
    "s' = s4\<lparr>mem := store64 (memset_pg (mem s4) pa 1) pa (freelist s4), freelist := pa\<rparr>"
    using k by (auto simp: kfree_def split: if_splits)
  have g3: "pte_mem s3 = (pte_mem s)(p := e)" "swap_disk s3 = (swap_disk s)(b' := page_image (mem s) pa)"
    "mem s3 = mem s" "freelist s3 = freelist s" "walk_tbl s3 = walk_tbl s"
    "swap_bitmap s3 = swap_bitmap s1"
    by (simp_all add: s3_def swapwrite_def f1)
  have g4: "pte_mem s4 = (pte_mem s)(p := e)" "swap_disk s4 = (swap_disk s)(b' := page_image (mem s) pa)"
    "mem s4 = mem s" "freelist s4 = freelist s" "walk_tbl s4 = walk_tbl s"
    "swap_bitmap s4 = swap_bitmap s1"
    using sf g3 by (simp_all add: same_frames_def)
  have g5: "pte_mem s' = (pte_mem s)(p := e)" "swap_disk s' = (swap_disk s)(b' := page_image (mem s) pa)"
    "mem s' = store64 (memset_pg (mem s) pa 1) pa (freelist s)" "freelist s' = pa"
    "walk_tbl s' = walk_tbl s" "swap_bitmap s' = swap_bitmap s1"
    using g4 by (simp_all add: k'(4))
  have s3': "s3 = s\<lparr>swap_bitmap := swap_bitmap s', swap_disk := swap_disk s', pte_mem := pte_mem s'\<rparr>"
    by (simp add: g5 s3_def swapwrite_def s1)
  have "lru_remove v (s\<lparr>swap_bitmap := swap_bitmap s', swap_disk := swap_disk s',
               pte_mem := pte_mem s'\<rparr>) = Inr s4 \<and> s' = s4\<lparr>mem := mem s', freelist := pa\<rparr>"
    using l s3' k'(4) g4 by simp
  then show ?thesis
    using rc c pv k'(1-3) g5 unfolding bb e_def by blast
qed

lemma swapout_victim_entry:
  assumes "SWAP_PAGES cfg \<le> 2097152" "swapout_victim cfg v s = Inr (rc, s')" "0 \<le> rc"
  defines "p \<equiv> walk_tbl s (pagetable (pages s v)) (vaddr (pages s v))"
  defines "b \<equiv> fst (swap_alloc cfg s)"
  shows "0 \<le> b \<and> b < 2097152 \<and> pte_mem s' p = swapped_pte b (pte_mem s p)"
proof -
  from swapout_victim_success [OF assms(2,3)]
  have r: "0 \<le> b" "b < SWAP_PAGES cfg"
    and e: "pte_mem s' = (pte_mem s)(p := scast (push_bit 10 (word_of_int b :: 32 word))
                                     OR (PTE_FLAGS (pte_mem s p) AND NOT PTE_V))"
    unfolding p_def b_def by blast+
  have b: "b < 2097152" using r(2) assms(1) by simp
  from e have "pte_mem s' p = scast (push_bit 10 (word_of_int b :: 32 word))
                                     OR (PTE_FLAGS (pte_mem s p) AND NOT PTE_V)"
    by simp
  with slot_shift [OF r(1) b] r(1) b show ?thesis by (simp add: swapped_pte_def)
qed

text \<open>
  C5. When \<open>swapout\<close> succeeds, the scan has chosen a victim, and the entry of the
  victim, Valid before, now has the Valid bit clear, its other nine flag bits as they
  were, and the number of the slot that \<open>swap_alloc\<close> returned in the bits from 10 up.
  The slot numbers are assumed to be below \<open>2 ^ 21\<close>, so that \<open>swap_blkno << 10\<close>
  does not overflow an \<open>int\<close>.
\<close>

theorem swapout_encoding:
  assumes "SWAP_PAGES cfg \<le> 2097152" "swapout cfg s = Inr (rc, s')" "0 \<le> rc"
  shows "\<exists>v cur rounds s1.
           swapout_loop s (page_lru_head s) 0 = Inr (Some v, cur, rounds, s1)
           \<and> (let p = walk_tbl s1 (pagetable (pages s1 v)) (vaddr (pages s1 v));
                   b = fst (swap_alloc cfg s1)
               in pte_mem s1 p AND PTE_V \<noteq> 0
                  \<and> 0 \<le> b \<and> b < SWAP_PAGES cfg
                  \<and> pte_mem s' p AND PTE_V = 0
                  \<and> pte_mem s' p AND 0x3FF = (pte_mem s1 p AND 0x3FF) AND NOT PTE_V
                  \<and> uint (drop_bit 10 (pte_mem s' p)) = b)"
proof -
  have ne: "page_lru_head s \<noteq> None"
  proof
    assume "page_lru_head s = None"
    with assms(2,3) show False by (simp add: swapout_def)
  qed
  obtain res where l: "swapout_loop s (page_lru_head s) 0 = Inr res"
    using assms(2) ne by (cases "swapout_loop s (page_lru_head s) 0") (simp_all add: swapout_def)
  obtain victim cur rounds s1 where res: "res = (victim, cur, rounds, s1)" by (cases res) auto
  have "victim \<noteq> None"
  proof
    assume "victim = None"
    with assms(2,3) ne l res show False by (simp add: swapout_def)
  qed
  then obtain v where v: "victim = Some v" by blast
  have sv: "swapout_victim cfg v s1 = Inr (rc, s')"
    using assms(2) ne l res v by (simp add: swapout_def)
  define p where "p = walk_tbl s1 (pagetable (pages s1 v)) (vaddr (pages s1 v))"
  define b where "b = fst (swap_alloc cfg s1)"
  from swapout_victim_success [OF sv assms(3)]
  have r: "pte_mem s1 p AND PTE_V \<noteq> 0" "0 \<le> b" "b < SWAP_PAGES cfg"
    unfolding p_def b_def by blast+
  from swapout_victim_entry [OF assms(1) sv assms(3)]
  have e: "pte_mem s' p = swapped_pte b (pte_mem s1 p)" and b: "b < 2097152"
    unfolding p_def b_def by blast+
  have "pte_mem s' p AND PTE_V = 0"
    "pte_mem s' p AND 0x3FF = (pte_mem s1 p AND 0x3FF) AND NOT PTE_V"
    "uint (drop_bit 10 (pte_mem s' p)) = b"
    unfolding e using swapped_pte_valid swapped_pte_flags swapped_pte_uint [OF r(2) b] by simp_all
  with r l res v show ?thesis
    unfolding p_def b_def Let_def by simp
qed

lemma evict_scan:
  "swapout_loop evict_state (page_lru_head evict_state) 0 = Inr (Some 15, Some 15, 0, evict_state)"
  by (simp add: evict_state_def all_accessed_state_def boot_state_def swapout_loop.simps
      PTE_V_def PTE_A_def)

lemma evict_slot: "fst (swap_alloc cfg0 evict_state) = 3"
  by (simp add: evict_state_def all_accessed_state_def boot_state_def swap_alloc_def
      swap_alloc_from.simps slot_mask_def cfg0_def)

lemma evict_returns: "\<exists>s'. swapout cfg0 evict_state = Inr (0, s')"
  by (simp add: swapout_def evict_scan)
    (simp add: evict_state_def all_accessed_state_def boot_state_def swapout_victim_def
      swap_alloc_def swap_alloc_from.simps slot_mask_def cfg0_def PTE_V_def PTE2PA_def
      PTE_FLAGS_def swapwrite_def lru_remove_def unlink_def set_next_def set_prev_def
      kfree_def PGSIZE_def Let_def)

theorem swapout_encoding_witness:
  "\<exists>s'. swapout cfg0 evict_state = Inr (0, s')
     \<and> pte_mem s' 0x87FFF020 AND PTE_V = 0
     \<and> pte_mem s' 0x87FFF020 AND 0x3FF = 0x16
     \<and> uint (drop_bit 10 (pte_mem s' 0x87FFF020)) = 3"
proof -
  from evict_returns obtain s' where e: "swapout cfg0 evict_state = Inr (0, s')" by blast
  have c: "SWAP_PAGES cfg0 \<le> 2097152" by (simp add: cfg0_def)
  have w: "walk_tbl evict_state (pagetable (pages evict_state 15)) (vaddr (pages evict_state 15))
      = 0x87FFF020" "pte_mem evict_state 0x87FFF020 = 0x2000C017"
    by (simp_all add: evict_state_def all_accessed_state_def boot_state_def)
  from swapout_encoding [OF c e] have
    "pte_mem s' 0x87FFF020 AND PTE_V = 0
     \<and> pte_mem s' 0x87FFF020 AND 0x3FF = (0x2000C017 AND 0x3FF) AND NOT PTE_V
     \<and> uint (drop_bit 10 (pte_mem s' 0x87FFF020)) = 3"
    by (simp add: evict_scan evict_slot w Let_def)
  then show ?thesis using e by (intro exI [of _ s']) (simp add: PTE_V_def)
qed

subsection \<open>Swap-out followed by swap-in\<close>

lemma kalloc_pop:
  "freelist s \<noteq> 0 \<Longrightarrow>
     kalloc cfg s = Inr (freelist s, s\<lparr>freelist := load64 (mem s) (freelist s),
                                     mem := memset_pg (mem s) (freelist s) 5\<rparr>)"
  by (simp add: kalloc_def kalloc_with_def pop_free_def Let_def)

lemma lru_add_returns:
  assumes "lru_ring s ys"
  shows "\<exists>s'. lru_add pg s = Inr s' \<and> same_frames s s'"
proof (cases ys)
  case Nil
  with assms have "page_lru_head s = None" by (simp add: lru_ring_def)
  then show ?thesis by (simp add: lru_add_def)
next
  case (Cons h t)
  with assms have h: "page_lru_head s = Some h" and r: "ringl (nexts s) (prevs s) (h # t)"
    by (simp_all add: lru_ring_def)
  from ringl_front [OF r] obtain l where p: "prevs s h = Some l" by blast
  have p1: "prev_pg (pages (set_next pg (Some h) s) h) = Some l"
    using p by (simp add: prevs_def [symmetric])
  have p2: "prev_pg (pages (set_prev pg (Some l) (set_next pg (Some h) s)) h) = Some l"
    using p by (simp add: prevs_def [symmetric])
  have "\<exists>s'. link_tail pg s = Inr s' \<and> same_frames s s'"
    unfolding link_tail_def by (simp add: h Let_def p1 p2)
  then show ?thesis using h by (auto simp: lru_add_def)
qed

lemma lru_ring_cong:
  "nexts s' = nexts s \<Longrightarrow> prevs s' = prevs s \<Longrightarrow> page_lru_head s' = page_lru_head s
   \<Longrightarrow> num_lru_pages s' = num_lru_pages s \<Longrightarrow> lru_ring s' xs = lru_ring s xs"
  by (simp add: lru_ring_def)

lemma swap_free_fields [simp]:
  "mem (swap_free cfg b s) = mem s" "pte_mem (swap_free cfg b s) = pte_mem s"
  "freelist (swap_free cfg b s) = freelist s" "pages (swap_free cfg b s) = pages s"
  "swap_disk (swap_free cfg b s) = swap_disk s" "walk_tbl (swap_free cfg b s) = walk_tbl s"
  "page_lru_head (swap_free cfg b s) = page_lru_head s"
  "num_lru_pages (swap_free cfg b s) = num_lru_pages s"
  by (simp_all add: swap_free_def Let_def)

lemma swapin_success:
  assumes "lru_ring s ys"
    and "b = sint (ucast (drop_bit 10 (pte_mem s p)) :: 32 word)"
    and "0 \<le> b" "b < SWAP_PAGES cfg" "freelist s \<noteq> 0"
  shows "\<exists>s2. swapin cfg pt va p s = Inr (0, s2)
           \<and> pte_mem s2 = (pte_mem s)(p := restored_pte (freelist s) (pte_mem s p))
           \<and> mem s2 = (\<lambda>a. if a - freelist s < PGSIZE
                            then swap_disk s b (unat (a - freelist s))
                            else memset_pg (mem s) (freelist s) 5 a)
           \<and> freelist s2 = load64 (mem s) (freelist s)"
proof -
  define pa where "pa = freelist s"
  define k where "k = s\<lparr>freelist := load64 (mem s) pa, mem := memset_pg (mem s) pa 5\<rparr>"
  have ka: "kalloc cfg s = Inr (pa, k)"
    using kalloc_pop [OF assms(5)] by (simp add: pa_def k_def)
  define s2 where "s2 = swapread pa b k"
  define s3 where "s3 = s2\<lparr>pte_mem := (pte_mem s2)(p := restored_pte pa (pte_mem s2 p))\<rparr>"
  have pm: "pte_mem s2 = pte_mem s" by (simp add: s2_def swapread_def k_def)
  define t where "t = (case pa2page cfg pa of
       None \<Rightarrow> Inr s3
     | Some pg \<Rightarrow> lru_add pg (s3\<lparr>pages := (pages s3)(pg := (pages s3 pg)\<lparr>pagetable := pt, vaddr := va\<rparr>)\<rparr>))"
  have r3: "lru_ring s3 ys"
    using assms(1)
    by (subst lru_ring_cong [of s3 s])
      (simp_all add: s3_def s2_def swapread_def k_def nexts_def prevs_def fun_eq_iff)
  have "\<exists>s4. t = Inr s4 \<and> mem s4 = mem s3 \<and> pte_mem s4 = pte_mem s3
      \<and> freelist s4 = freelist s3"
  proof (cases "pa2page cfg pa")
    case None
    then show ?thesis by (simp add: t_def)
  next
    case (Some pg)
    let ?u = "s3\<lparr>pages := (pages s3)(pg := (pages s3 pg)\<lparr>pagetable := pt, vaddr := va\<rparr>)\<rparr>"
    have "lru_ring ?u ys"
      using r3 by (subst lru_ring_cong [of ?u s3]) (auto simp: nexts_def prevs_def fun_eq_iff)
    from lru_add_returns [OF this, of pg] obtain s4
      where a: "lru_add pg ?u = Inr s4" "same_frames ?u s4" by blast
    have "mem s4 = mem s3 \<and> pte_mem s4 = pte_mem s3 \<and> freelist s4 = freelist s3"
      using a(2) by (simp add: same_frames_def)
    with a(1) Some show ?thesis by (simp add: t_def)
  qed
  then obtain s4 where t: "t = Inr s4" and f4: "mem s4 = mem s3" "pte_mem s4 = pte_mem s3"
    "freelist s4 = freelist s3" by blast
  have rng: "\<not> (b < 0 \<or> SWAP_PAGES cfg \<le> b)" using assms(3,4) by simp
  have pz: "pa \<noteq> 0" using assms(5) by (simp add: pa_def)
  have "swapin cfg pt va p s = (case t of Inl e \<Rightarrow> Inl e | Inr s4 \<Rightarrow> Inr (0, swap_free cfg b s4))"
    unfolding swapin_def Let_def assms(2) [symmetric] t_def s3_def s2_def restored_pte_def
    using rng ka pz by simp
  then have "swapin cfg pt va p s = Inr (0, swap_free cfg b s4)"
    by (simp add: t)
  moreover have "pte_mem (swap_free cfg b s4) = (pte_mem s)(p := restored_pte pa (pte_mem s p))"
    by (simp add: f4 s3_def pm)
  moreover have "mem (swap_free cfg b s4) = (\<lambda>a. if a - pa < PGSIZE
                            then swap_disk s b (unat (a - pa))
                            else memset_pg (mem s) pa 5 a)"
    by (simp add: f4 s3_def s2_def swapread_def k_def fun_eq_iff)
  moreover have "freelist (swap_free cfg b s4) = load64 (mem s) pa"
    by (simp add: f4 s3_def s2_def swapread_def k_def)
  ultimately show ?thesis unfolding pa_def by blast
qed

text \<open>
  C4. Evict a frame enrolled in a well-formed list (the code of \<open>swapout\<close> after the
  scan, on that frame), then call \<open>swapin\<close> on its entry. The slot number \<open>swapin\<close>
  decodes is the one \<open>swap_alloc\<close> gave; \<open>swapin\<close> returns 0; the entry is Valid again
  and points to a page whose 4096 bytes are the bytes the frame had before the eviction;
  the flags are the former flags with Accessed set, so they agree with the former flags
  outside Valid and Accessed. The storage primitives are those of the model: a slot
  gives back the image written to it. The slot numbers are assumed below \<open>2 ^ 21\<close> and
  the kernel does not end at address 0.
\<close>

theorem swap_round_trip:
  assumes "SWAP_PAGES cfg \<le> 2097152" "kend cfg \<noteq> 0" "lru_ring s xs" "v \<in> set xs"
    and "swapout_victim cfg v s = Inr (rc, s1)" "0 \<le> rc"
  shows "let pt = pagetable (pages s v); va = vaddr (pages s v); p = walk_tbl s pt va;
             old = pte_mem s p; pa = PTE2PA old
         in sint (ucast (drop_bit 10 (pte_mem s1 p)) :: 32 word) = fst (swap_alloc cfg s)
            \<and> (\<exists>s2. swapin cfg pt va p s1 = Inr (0, s2)
                  \<and> PTE2PA (pte_mem s2 p) = pa
                  \<and> page_image (mem s2) pa = page_image (mem s) pa
                  \<and> pte_mem s2 p AND PTE_V \<noteq> 0
                  \<and> PTE_FLAGS (pte_mem s2 p) = PTE_FLAGS old OR PTE_A
                  \<and> PTE_FLAGS (pte_mem s2 p) AND NOT (PTE_V OR PTE_A)
                      = PTE_FLAGS old AND NOT (PTE_V OR PTE_A))"
proof -
  define pt where "pt = pagetable (pages s v)"
  define va where "va = vaddr (pages s v)"
  define p where "p = walk_tbl s pt va"
  define old where "old = pte_mem s p"
  define pa where "pa = PTE2PA old"
  define b where "b = fst (swap_alloc cfg s)"
  note defs = pt_def va_def p_def old_def pa_def b_def
  from swapout_victim_success [OF assms(5,6)]
  have r: "0 \<le> b" "b < SWAP_PAGES cfg" "old AND PTE_V \<noteq> 0"
    and d: "swap_disk s1 = (swap_disk s)(b := page_image (mem s) pa)"
    and k: "pa mod PGSIZE = 0" "kend cfg \<le> pa" "freelist s1 = pa"
    and l: "\<exists>s4. lru_remove v (s\<lparr>swap_bitmap := swap_bitmap s1, swap_disk := swap_disk s1,
               pte_mem := pte_mem s1\<rparr>) = Inr s4 \<and> s1 = s4\<lparr>mem := mem s1, freelist := pa\<rparr>"
    unfolding defs by blast+
  from swapout_victim_entry [OF assms(1,5,6)]
  have e: "pte_mem s1 p = swapped_pte b old" and b: "b < 2097152"
    unfolding defs by blast+
  have dec: "sint (ucast (drop_bit 10 (pte_mem s1 p)) :: 32 word) = b"
    unfolding e by (rule swapped_pte_decode [OF r(1) b])
  let ?s3 = "s\<lparr>swap_bitmap := swap_bitmap s1, swap_disk := swap_disk s1, pte_mem := pte_mem s1\<rparr>"
  from l obtain s4 where s4: "lru_remove v ?s3 = Inr s4" "s1 = s4\<lparr>mem := mem s1, freelist := pa\<rparr>"
    by blast
  have "lru_ring ?s3 xs"
    using assms(3) by (subst lru_ring_cong [of ?s3 s]) (simp_all add: nexts_def prevs_def fun_eq_iff)
  from lru_remove_ring [OF this assms(4)] s4(1) have "lru_ring s4 (remove1 v xs)" by auto
  then have r1: "lru_ring s1 (remove1 v xs)"
    by (subst s4(2), subst lru_ring_cong [of _ s4]) (simp_all add: nexts_def prevs_def fun_eq_iff)
  have nz: "freelist s1 \<noteq> 0"
  proof
    assume "freelist s1 = 0"
    with k(2,3) have "kend cfg \<le> 0" by simp
    with assms(2) show False by simp
  qed
  from swapin_success [OF r1 dec [symmetric] r(1,2) nz, of pt va]
  obtain s2 where i: "swapin cfg pt va p s1 = Inr (0, s2)"
    and pm: "pte_mem s2 = (pte_mem s1)(p := restored_pte pa (pte_mem s1 p))"
    and mm: "mem s2 = (\<lambda>a. if a - pa < PGSIZE then swap_disk s1 b (unat (a - pa))
                            else memset_pg (mem s1) pa 5 a)"
    unfolding k(3) by blast
  have n: "pte_mem s2 p = restored_pte pa (swapped_pte b old)" by (simp add: pm e)
  have 1: "PTE2PA (pte_mem s2 p) = pa" unfolding n by (rule restored_pte_pa [OF k(1)])
  have 2: "page_image (mem s2) pa = page_image (mem s) pa"
    unfolding mm page_image_read d fun_upd_same by (rule page_image_idem)
  have 3: "pte_mem s2 p AND PTE_V \<noteq> 0" unfolding n by (rule restored_valid)
  have 4: "PTE_FLAGS (pte_mem s2 p) = PTE_FLAGS old OR PTE_A"
    unfolding n by (rule round_trip_flags [OF r(3)])
  have 5: "PTE_FLAGS (pte_mem s2 p) AND NOT (PTE_V OR PTE_A) = PTE_FLAGS old AND NOT (PTE_V OR PTE_A)"
    by (rule flags_modulo_va [OF 4])
  show ?thesis
    unfolding Let_def defs [symmetric]
    using dec i 1 2 3 4 5 by blast
qed

lemma evict_ring: "lru_ring evict_state [15, 16, 17]"
  by (simp add: lru_ring_def ringl_def cyc_def evict_state_def all_accessed_state_def
      boot_state_def nexts_def prevs_def)

lemma evict_victim_returns: "\<exists>s1. swapout_victim cfg0 15 evict_state = Inr (0, s1)"
proof -
  have h: "page_lru_head evict_state = Some 15"
    by (simp add: evict_state_def all_accessed_state_def boot_state_def)
  have "swapout cfg0 evict_state = swapout_victim cfg0 15 evict_state"
    using evict_scan by (simp add: swapout_def h)
  with evict_returns show ?thesis by simp
qed

theorem swap_round_trip_witness:
  "\<exists>s1 s2. swapout_victim cfg0 15 evict_state = Inr (0, s1)
     \<and> swapin cfg0 0x87FFE000 0x4000 0x87FFF020 s1 = Inr (0, s2)
     \<and> PTE2PA (pte_mem s2 0x87FFF020) = 0x80030000
     \<and> page_image (mem s2) 0x80030000 = page_image (mem evict_state) 0x80030000
     \<and> PTE_FLAGS (pte_mem s2 0x87FFF020) = 0x57"
proof -
  from evict_victim_returns obtain s1
    where e: "swapout_victim cfg0 15 evict_state = Inr (0, s1)" by blast
  have c: "SWAP_PAGES cfg0 \<le> 2097152" "kend cfg0 \<noteq> 0" by (simp_all add: cfg0_def)
  have m: "(15::nat) \<in> set [15, 16, 17]" by simp
  have w: "pagetable (pages evict_state 15) = 0x87FFE000" "vaddr (pages evict_state 15) = 0x4000"
    "walk_tbl evict_state 0x87FFE000 0x4000 = 0x87FFF020"
    "pte_mem evict_state 0x87FFF020 = 0x2000C017"
    by (simp_all add: evict_state_def all_accessed_state_def boot_state_def)
  have v: "PTE2PA 0x2000C017 = 0x80030000" "PTE_FLAGS 0x2000C017 OR PTE_A = 0x57"
    by (simp_all add: PTE2PA_def PTE_FLAGS_def PTE_A_def)
  from swap_round_trip [OF c evict_ring m e]
  obtain s2 where "swapin cfg0 0x87FFE000 0x4000 0x87FFF020 s1 = Inr (0, s2)"
    "PTE2PA (pte_mem s2 0x87FFF020) = 0x80030000"
    "page_image (mem s2) 0x80030000 = page_image (mem evict_state) 0x80030000"
    "PTE_FLAGS (pte_mem s2 0x87FFF020) = 0x57"
    by (simp add: Let_def w v) blast
  with e show ?thesis by blast
qed

end
